theory Spec2Isabelle
  imports Complex_Main "HOL-Library.Extended_Nat"
begin

section \<open>Values and strings of the host language\<close>

text \<open>
  The service under study is the OpenRouter provider of the chat client: the helpers
  \<open>estimateTokens\<close>, \<open>detectModelFamily\<close>, \<open>getCacheTokenThreshold\<close>,
  \<open>shouldInsertCacheControl\<close>, \<open>transformMessagesForCaching\<close>, \<open>prepareApiKey\<close>,
  \<open>handleApiError\<close> and the methods \<open>sendMessage\<close> and \<open>streamResponse\<close>.

  Strings are lists of 8-bit characters. The characters the code compares with are all
  ASCII (line feed, carriage return, colon, the words \<open>data:\<close>, \<open>[DONE]\<close>, \<open>bearer \<close>
  and the model family names), so a response body is read as its UTF-8 bytes, on which the
  streaming \<open>TextDecoder\<close> is the identity.

  A value produced by \<open>JSON.parse\<close> is a \<open>json\<close>; the result of a property access that
  finds nothing (\<open>undefined\<close>) is \<open>None\<close>. The object constructor carries the members in
  the order \<open>map_of\<close> looks them up.
\<close>

datatype json =
    JNull
  | JBool bool
  | JNum real
  | JStr string
  | JArr "json list"
  | JObj "(string \<times> json) list"

text \<open>\<open>v.k\<close> for a value \<open>v\<close> that is neither \<open>null\<close> nor \<open>undefined\<close>.\<close>

fun get_prop :: "string \<Rightarrow> json \<Rightarrow> json option" where
  "get_prop k (JObj kvs) = map_of kvs k"
| "get_prop k v = None"

text \<open>\<open>v[0]\<close> for a value \<open>v\<close> that is neither \<open>null\<close> nor \<open>undefined\<close>.\<close>

fun index0 :: "json \<Rightarrow> json option" where
  "index0 (JArr xs) = (case xs of [] \<Rightarrow> None | x # _ \<Rightarrow> Some x)"
| "index0 (JStr s) = (case s of [] \<Rightarrow> None | c # _ \<Rightarrow> Some (JStr [c]))"
| "index0 (JObj kvs) = map_of kvs ''0''"
| "index0 v = None"

text \<open>Optional chaining \<open>x?.f\<close>: \<open>undefined\<close> when \<open>x\<close> is \<open>null\<close> or \<open>undefined\<close>.\<close>

fun opt_chain :: "(json \<Rightarrow> json option) \<Rightarrow> json option \<Rightarrow> json option" where
  "opt_chain f None = None"
| "opt_chain f (Some JNull) = None"
| "opt_chain f (Some v) = f v"

text \<open>Truthiness, as \<open>if (x)\<close>, \<open>x && y\<close> and \<open>x || y\<close> test it.\<close>

fun truthy :: "json option \<Rightarrow> bool" where
  "truthy None = False"
| "truthy (Some JNull) = False"
| "truthy (Some (JBool b)) = b"
| "truthy (Some (JNum n)) = (n \<noteq> 0)"
| "truthy (Some (JStr s)) = (s \<noteq> [])"
| "truthy (Some (JArr xs)) = True"
| "truthy (Some (JObj kvs)) = True"

definition toLowerCase_char :: "char \<Rightarrow> char" where
  "toLowerCase_char c =
     (case map_of (zip ''ABCDEFGHIJKLMNOPQRSTUVWXYZ'' ''abcdefghijklmnopqrstuvwxyz'') c of
        Some d \<Rightarrow> d
      | None \<Rightarrow> c)"

definition toLowerCase :: "string \<Rightarrow> string" where
  "toLowerCase s = map toLowerCase_char s"

definition startsWith :: "string \<Rightarrow> string \<Rightarrow> bool" where
  "startsWith s p = (take (length p) s = p)"

definition endsWith :: "string \<Rightarrow> string \<Rightarrow> bool" where
  "endsWith s p = (drop (length s - length p) s = p \<and> length p \<le> length s)"

fun includes_str :: "string \<Rightarrow> string \<Rightarrow> bool" where
  "includes_str [] p = (p = [])"
| "includes_str (c # cs) p = (startsWith (c # cs) p \<or> includes_str cs p)"

section \<open>Prompt caching helpers\<close>

definition MAX_RETRIES :: nat where
  "MAX_RETRIES = 2"

definition RETRY_DELAY :: nat where
  "RETRY_DELAY = 1000"

definition MAX_CACHE_BREAKPOINTS :: nat where
  "MAX_CACHE_BREAKPOINTS = 4"

text \<open>\<open>Math.ceil(text.length / 4)\<close>.\<close>

definition estimateTokens :: "string \<Rightarrow> nat" where
  "estimateTokens text = (length text + 3) div 4"

datatype family = Anthropic | Gemini | Openai | Grok | Deepseek | Other

text \<open>The regular expression \<open>/^o\d/\<close>.\<close>

fun o_digit :: "string \<Rightarrow> bool" where
  "o_digit (a # b # _) = (a = CHR ''o'' \<and> b \<in> set ''0123456789'')"
| "o_digit _ = False"

definition detectModelFamily :: "string \<Rightarrow> family" where
  "detectModelFamily model =
     (let m = toLowerCase model in
      if includes_str m ''claude'' \<or> startsWith m ''anthropic/'' then Anthropic
      else if includes_str m ''gemini'' \<or> startsWith m ''google/'' then Gemini
      else if includes_str m ''gpt'' \<or> startsWith m ''openai/'' \<or> o_digit m then Openai
      else if includes_str m ''grok'' \<or> startsWith m ''x-ai/'' then Grok
      else if includes_str m ''deepseek'' then Deepseek
      else Other)"

text \<open>\<open>Number.POSITIVE_INFINITY\<close> is the infinite extended natural.\<close>

definition getCacheTokenThreshold :: "string \<Rightarrow> enat" where
  "getCacheTokenThreshold model =
     (case detectModelFamily model of
        Anthropic \<Rightarrow> enat 4096
      | Gemini \<Rightarrow> enat 4096
      | _ \<Rightarrow> \<infinity>)"

definition shouldInsertCacheControl :: "string \<Rightarrow> bool" where
  "shouldInsertCacheControl model =
     (let family = detectModelFamily model in family = Anthropic \<or> family = Gemini)"

text \<open>
  A content part: its \<open>type\<close>, its \<open>text\<close> when that field is a string, its
  \<open>cache_control\<close> when it has one, and its other fields (\<open>image_url\<close> and the like).
  A message: its role, its content (a string, an array of parts, or neither) and its
  other fields. \<open>ephemeral\<close> is the object \<open>{ type: "ephemeral" }\<close>.
\<close>

definition ephemeral :: json where
  "ephemeral = JObj [(''type'', JStr ''ephemeral'')]"

record part =
  ptype :: string
  ptext :: "string option"
  cache_control :: "json option"
  pfields :: "(string \<times> json) list"

datatype content = Text string | Parts "part list" | Neither

record message =
  role :: string
  content :: content
  others :: "(string \<times> json) list"

text \<open>The test of the loop over the parts (\<open>remaining > 0\<close> holds on entry).\<close>

definition large_text :: "enat \<Rightarrow> part \<Rightarrow> bool" where
  "large_text threshold p =
     (ptype p = ''text'' \<and>
      (case ptext p of None \<Rightarrow> False | Some t \<Rightarrow> threshold \<le> enat (estimateTokens t)))"

text \<open>
  The loop \<open>for (let i = parts.length - 1; i >= 0; i--)\<close>, run over the reversed array:
  the first part that passes the test is annotated and the loop breaks. The flag tells
  whether \<open>remaining\<close> was decremented.
\<close>

fun annotate_first :: "enat \<Rightarrow> part list \<Rightarrow> part list \<times> bool" where
  "annotate_first threshold [] = ([], False)"
| "annotate_first threshold (p # ps) =
     (if large_text threshold p then (p\<lparr>cache_control := Some ephemeral\<rparr> # ps, True)
      else (case annotate_first threshold ps of (ps', hit) \<Rightarrow> (p # ps', hit)))"

definition annotate_last :: "enat \<Rightarrow> part list \<Rightarrow> part list \<times> bool" where
  "annotate_last threshold parts =
     (case annotate_first threshold (rev parts) of (ps', hit) \<Rightarrow> (rev ps', hit))"

text \<open>The callback of \<open>messages.map\<close>, with the captured counter \<open>remaining\<close> threaded.\<close>

fun cache_map :: "nat \<Rightarrow> enat \<Rightarrow> message list \<Rightarrow> message list" where
  "cache_map remaining threshold [] = []"
| "cache_map remaining threshold (m # ms) =
     (if remaining \<le> 0 then m # cache_map remaining threshold ms
      else (case content m of
          Parts ps \<Rightarrow>
            (case annotate_last threshold ps of
               (parts, hit) \<Rightarrow>
                 m\<lparr>content := Parts parts\<rparr> #
                 cache_map (if hit then remaining - 1 else remaining) threshold ms)
        | Text s \<Rightarrow>
            (if threshold \<le> enat (estimateTokens s)
             then m\<lparr>content := Parts [\<lparr>ptype = ''text'', ptext = Some s,
                                         cache_control = Some ephemeral, pfields = []\<rparr>]\<rparr> #
                  cache_map (remaining - 1) threshold ms
             else m # cache_map remaining threshold ms)
        | Neither \<Rightarrow> m # cache_map remaining threshold ms))"

definition transformMessagesForCaching :: "message list \<Rightarrow> string \<Rightarrow> message list" where
  "transformMessagesForCaching messages model =
     (if \<not> shouldInsertCacheControl model then messages
      else cache_map MAX_CACHE_BREAKPOINTS (getCacheTokenThreshold model) messages)"


section \<open>Credential and request headers\<close>

text \<open>
  An \<open>Error\<close> object is kept by its message. \<open>ErrorOf v\<close> is \<open>new Error(v)\<close> for a value
  \<open>v\<close> taken from a response body, whose message is \<open>String(v)\<close>; \<open>ErrorStatus\<close> is the
  message \<open>Error: ${response.status} ${response.statusText}\<close>; \<open>NetworkError\<close> is what a
  rejected \<open>fetch\<close> or \<open>read\<close> throws; \<open>AbortError\<close> is what they throw once the
  request's controller has been aborted; \<open>TypeError\<close> is what a conversion to a string
  throws when it fails; \<open>Failed e\<close> is the error \<open>sendMessage\<close> throws
  at the end, whose message is \<open>Failed to get response from OpenRouter API: \<close> followed by
  the message of \<open>e\<close>.
\<close>

datatype error =
    Error string
  | ErrorOf json
  | ErrorStatus nat string
  | NetworkError string
  | AbortError
  | TypeError
  | Failed error

text \<open>
  A credential and the value of a header are strings of the host language, kept as lists
  of UTF-16 code units; \<open>lit\<close> gives the units of an ASCII literal.
\<close>

definition lit :: "string \<Rightarrow> nat list" where
  "lit s = map of_char s"

text \<open>
  The white space and the line terminators of ECMAScript, which \<open>String.prototype.trim\<close>
  strips: TAB, LF, VT, FF, CR, SPACE, NO-BREAK SPACE, OGHAM SPACE MARK, EN QUAD to HAIR
  SPACE, LINE SEPARATOR, PARAGRAPH SEPARATOR, NARROW NO-BREAK SPACE, MEDIUM MATHEMATICAL
  SPACE, IDEOGRAPHIC SPACE and ZERO WIDTH NO-BREAK SPACE.
\<close>

definition is_space :: "nat \<Rightarrow> bool" where
  "is_space u =
     (u \<in> set [0x09, 0x0A, 0x0B, 0x0C, 0x0D, 0x20, 0xA0, 0x1680, 0x2028, 0x2029, 0x202F,
               0x205F, 0x3000, 0xFEFF] \<or>
      (0x2000 \<le> u \<and> u \<le> 0x200A))"

definition trim :: "nat list \<Rightarrow> nat list" where
  "trim s = rev (dropWhile is_space (rev (dropWhile is_space s)))"

text \<open>
  The test \<open>cleanKey.toLowerCase().startsWith("bearer ")\<close>. The only characters whose
  lower case begins with one of the letters b, e, a, r or with the blank are these
  characters themselves and the capitals B, E, A, R, each one code unit long and lowered
  to one code unit. So the first seven units of the lowered key are \<open>bearer \<close> exactly
  when the first seven units of the key are, once the capitals A to Z among them are
  lowered.
\<close>

definition lower_ascii :: "nat \<Rightarrow> nat" where
  "lower_ascii u = (if 0x41 \<le> u \<and> u \<le> 0x5A then u + 0x20 else u)"

definition starts_with_bearer :: "nat list \<Rightarrow> bool" where
  "starts_with_bearer cleanKey = (map lower_ascii (take 7 cleanKey) = lit ''bearer '')"

text \<open>\<open>USE_PROXY\<close> is read from the build environment: it is a parameter.\<close>

definition prepareApiKey :: "bool \<Rightarrow> nat list \<Rightarrow> error + nat list" where
  "prepareApiKey USE_PROXY apiKey =
     (if USE_PROXY then Inr []
      else if apiKey = [] then Inl (Error ''API Key is required when not using proxy mode'')
      else (let cleanKey = trim apiKey in
            if starts_with_bearer cleanKey then Inr (drop 7 cleanKey)
            else Inr cleanKey))"

text \<open>The headers of a request; \<open>origin\<close> is \<open>window.location.origin\<close> or the empty string.\<close>

definition request_headers :: "bool \<Rightarrow> string \<Rightarrow> nat list \<Rightarrow> nat list \<Rightarrow> (string \<times> nat list) list" where
  "request_headers USE_PROXY accept origin cleanApiKey =
     [(''Content-Type'', lit ''application/json''),
      (''Accept'', lit accept),
      (''HTTP-Referer'', origin),
      (''X-Title'', lit ''LampsGPT'')] @
     (if \<not> USE_PROXY then [(''Authorization'', lit ''Bearer '' @ cleanApiKey)] else [])"

definition send_headers :: "bool \<Rightarrow> nat list \<Rightarrow> nat list \<Rightarrow> (string \<times> nat list) list" where
  "send_headers USE_PROXY origin cleanApiKey =
     request_headers USE_PROXY ''application/json'' origin cleanApiKey"

definition stream_headers :: "bool \<Rightarrow> nat list \<Rightarrow> nat list \<Rightarrow> (string \<times> nat list) list" where
  "stream_headers USE_PROXY origin cleanApiKey =
     request_headers USE_PROXY ''text/event-stream'' origin cleanApiKey"

section \<open>The streaming session\<close>

text \<open>
  What \<open>streamResponse\<close> does to the outside is a list of effects in the order they
  happen: the callbacks it invokes, the requests it issues with \<open>fetch\<close> and the backoff
  delays it waits for. \<open>OnChunk v\<close> is \<open>onChunk(v)\<close>; \<open>OnReasoningChunk v\<close> is
  \<open>onReasoningChunk(String(v))\<close>. Callbacks are taken not to throw.

  The configuration holds \<open>JSON.parse\<close> (\<open>None\<close> when it throws), \<open>USE_PROXY\<close>, and
  which of the optional callbacks the caller supplied.
\<close>

datatype effect =
    OnController nat
  | Fetch
  | OnReasoningChunk json
  | OnChunk json
  | OnUsage json
  | OnComplete
  | OnError error
  | Delay nat

record config =
  parse :: "string \<Rightarrow> json option"
  use_proxy :: bool
  has_onController :: bool
  has_onReasoningChunk :: bool
  has_onUsage :: bool

text \<open>
  The variables of \<open>streamResponse\<close>, with the clock. Time is in milliseconds. \<open>timer\<close> is
  the deadline of the pending inactivity timer of the current attempt (\<open>None\<close>: none is
  pending); \<open>stale\<close> holds the deadlines of the inactivity timers of earlier attempts that
  were left pending.
\<close>

record state =
  now :: nat
  aborted :: bool
  retries :: nat
  trace :: "effect list"
  stale :: "nat list"
  timer :: "nat option"
  buffer :: string
  eventDataParts :: "string list"
  finalUsage :: "json option"
  receivedDone :: bool
  done_flag :: bool

definition LF :: char where
  "LF = CHR 0x0A"

definition CR :: char where
  "CR = CHR 0x0D"

definition emit :: "effect \<Rightarrow> state \<Rightarrow> state" where
  "emit e s = s\<lparr>trace := trace s @ [e]\<rparr>"

definition inactivityTimeoutMs :: nat where
  "inactivityTimeoutMs = 45000"

text \<open>\<open>resetInactivity\<close>: the pending timer is cleared and a new one is set.\<close>

definition resetInactivity :: "state \<Rightarrow> state" where
  "resetInactivity s = s\<lparr>timer := Some (now s + inactivityTimeoutMs)\<rparr>"

text \<open>
  The callback of an inactivity timer. Its \<open>controller.abort()\<close> acts on the request of
  the timer's own attempt: see \<open>advance\<close>.
\<close>

definition stalled :: error where
  "stalled = Error ''Stream stalled (no data for 45s)''"

definition on_timeout :: "state \<Rightarrow> state" where
  "on_timeout s = emit (OnError stalled) (s\<lparr>aborted := True\<rparr>)"

text \<open>\<open>eventDataParts.join('\n')\<close>.\<close>

fun join_lines :: "string list \<Rightarrow> string" where
  "join_lines [] = []"
| "join_lines [x] = x"
| "join_lines (x # y # ys) = x @ LF # join_lines (y # ys)"

text \<open>\<open>parsed.choices?.[0]?.delta?.content\<close>, for \<open>parsed\<close> other than \<open>null\<close>.\<close>

definition content_delta :: "json \<Rightarrow> json option" where
  "content_delta parsed =
     opt_chain (get_prop ''content'')
       (opt_chain (get_prop ''delta'') (opt_chain index0 (get_prop ''choices'' parsed)))"

text \<open>\<open>parsed?.choices?.[0]?.delta?.reasoning\<close>.\<close>

definition reasoning_delta :: "json \<Rightarrow> json option" where
  "reasoning_delta parsed =
     opt_chain (get_prop ''reasoning'')
       (opt_chain (get_prop ''delta'')
          (opt_chain index0 (opt_chain (get_prop ''choices'') (Some parsed))))"

text \<open>
  Whether \<open>String(v)\<close> throws. A parsed object converts through the \<open>toString\<close> it
  inherits unless it has a property of that name of its own, which is never a function:
  then the conversion finds nothing to call and throws a \<open>TypeError\<close>. An array converts
  each of its elements, \<open>null\<close> apart.
\<close>

fun throws_on_String :: "json \<Rightarrow> bool" where
  "throws_on_String (JObj kvs) = (''toString'' \<in> set (map fst kvs))"
| "throws_on_String (JArr xs) = list_ex throws_on_String xs"
| "throws_on_String v = False"

text \<open>
  The \<open>try\<close> block that handles one event payload. \<open>JSON.parse\<close> throwing,
  \<open>parsed.choices\<close> throwing on \<open>null\<close>, and \<open>String(reasoningChunk)\<close> throwing, all end in
  the empty \<open>catch\<close>: the statements after the one that throws are not run. The effect
  \<open>OnReasoningChunk r\<close> is the call of \<open>onReasoningChunk\<close> with \<open>String(r)\<close>.
\<close>

definition dispatch :: "config \<Rightarrow> string \<Rightarrow> state \<Rightarrow> state" where
  "dispatch c dataStr s =
     (case parse c dataStr of
        None \<Rightarrow> s
      | Some JNull \<Rightarrow> s
      | Some parsed \<Rightarrow>
          (let chunk = content_delta parsed;
               reasoningChunk = reasoning_delta parsed;
               r1 = (case reasoningChunk of
                       None \<Rightarrow> Inr s
                     | Some r \<Rightarrow> if truthy (Some r) \<and> has_onReasoningChunk c
                                then (if throws_on_String r then Inl TypeError
                                      else Inr (emit (OnReasoningChunk r) s))
                                else Inr s)
           in case r1 of
                Inl e \<Rightarrow> s
              | Inr s1 \<Rightarrow>
                  (let s2 = (case chunk of
                               None \<Rightarrow> s1
                             | Some v \<Rightarrow> if truthy (Some v) then emit (OnChunk v) s1 else s1)
                   in if truthy (get_prop ''usage'' parsed)
                      then s2\<lparr>finalUsage := get_prop ''usage'' parsed\<rparr>
                      else s2)))"

text \<open>
  The body of the loop \<open>for (;;)\<close> for one complete line, after the trailing carriage
  return has been dropped. The flag is set when the body leaves the loop with \<open>break\<close>,
  at the terminator; otherwise the loop goes on with the next line.
\<close>

definition handle_line :: "config \<Rightarrow> state \<Rightarrow> string \<Rightarrow> state \<times> bool" where
  "handle_line c s line =
     (if line = [] then
        (if eventDataParts s \<noteq> [] then
           (let dataStr = join_lines (eventDataParts s);
                s1 = s\<lparr>eventDataParts := []\<rparr>
            in
            if dataStr = ''[DONE]'' then (s1\<lparr>receivedDone := True, done_flag := True\<rparr>, True)
            else (resetInactivity (dispatch c dataStr s1), False))
         else (resetInactivity s, False))
      else if startsWith line '':'' then (resetInactivity s, False)
      else if startsWith line ''data:'' then
        (let s1 = resetInactivity s;
             v = (if startsWith line ''data: '' then drop 6 line else drop 5 line)
         in (s1\<lparr>eventDataParts := eventDataParts s1 @ [v]\<rparr>, False))
      else (s, False))"

text \<open>
  The loop \<open>for (;;)\<close> over the complete lines of the buffer; \<open>buf\<close> is
  \<open>buffer.slice(start)\<close>. Without a line feed the remainder becomes the buffer. At the
  terminator the loop is left with \<open>buffer\<close> as it is.
\<close>

function lines_loop :: "config \<Rightarrow> state \<Rightarrow> string \<Rightarrow> state" where
  "lines_loop c s buf =
     (if LF \<notin> set buf then s\<lparr>buffer := buf\<rparr>
      else
        (let line0 = takeWhile (\<lambda>x. x \<noteq> LF) buf;
             rest = tl (dropWhile (\<lambda>x. x \<noteq> LF) buf);
             line = (if endsWith line0 [CR] then butlast line0 else line0)
         in case handle_line c s line of
              (s', True) \<Rightarrow> s'
            | (s', False) \<Rightarrow> lines_loop c s' rest))"
  by pat_completeness auto
termination
proof -
  have shorter: "length (tl (dropWhile (\<lambda>x. x \<noteq> LF) buf)) < length buf"
    if "LF \<in> set buf" for buf
  proof -
    from that have "dropWhile (\<lambda>x. x \<noteq> LF) buf \<noteq> []" by simp
    then have "length (tl (dropWhile (\<lambda>x. x \<noteq> LF) buf)) <
        length (dropWhile (\<lambda>x. x \<noteq> LF) buf)"
      by (cases "dropWhile (\<lambda>x. x \<noteq> LF) buf") simp_all
    also have "\<dots> \<le> length buf" by (rule length_dropWhile_le)
    finally show ?thesis .
  qed
  show ?thesis
    by (relation "measure (\<lambda>(c, s, buf). length buf)")
       (auto simp: shorter simp del: length_tl)
qed

declare lines_loop.simps [simp del]

text \<open>One read that delivers bytes: \<open>buffer += decoder.decode(value)\<close>, then the lines.\<close>

definition process_chunk :: "config \<Rightarrow> state \<Rightarrow> string \<Rightarrow> state" where
  "process_chunk c s v = lines_loop c (s\<lparr>buffer := buffer s @ v\<rparr>) (buffer s @ v)"


text \<open>
  Time passes only while the function awaits. The callbacks of the timers that fall due
  run then, oldest first; a timer due at the moment the awaited operation settles runs
  before the function resumes.
\<close>

primrec run_timeouts :: "nat list \<Rightarrow> state \<Rightarrow> state" where
  "run_timeouts [] s = s"
| "run_timeouts (d # ds) s = run_timeouts ds (on_timeout s)"

definition fire_stale :: "nat \<Rightarrow> state \<Rightarrow> state" where
  "fire_stale t s =
     run_timeouts (filter (\<lambda>d. d \<le> t) (stale s)) (s\<lparr>stale := filter (\<lambda>d. t < d) (stale s)\<rparr>)"

text \<open>
  The inactivity timer of the current attempt expires at its deadline \<open>d\<close>: its callback
  runs, and its \<open>controller.abort()\<close> makes the pending \<open>fetch\<close> or \<open>read\<close> of this
  attempt reject with an \<open>AbortError\<close>.
\<close>

definition expire :: "nat \<Rightarrow> state \<Rightarrow> state" where
  "expire d s = on_timeout ((fire_stale d s)\<lparr>now := d, timer := None\<rparr>)"

text \<open>
  Awaiting an operation of this attempt's request that settles after \<open>dt\<close> milliseconds.
  The flag tells that the inactivity timer of the attempt expired first.
\<close>

definition advance :: "nat \<Rightarrow> state \<Rightarrow> state \<times> bool" where
  "advance dt s =
     (let t = now s + dt in
      case timer s of
        Some d \<Rightarrow> if d \<le> t then (expire d s, True) else ((fire_stale t s)\<lparr>now := t\<rparr>, False)
      | None \<Rightarrow> ((fire_stale t s)\<lparr>now := t\<rparr>, False))"

text \<open>
  Awaiting an operation that never settles by itself: the inactivity timer of the attempt
  expires if one is pending; otherwise the function waits for ever, and the stale timers
  all run.
\<close>

definition never :: "state \<Rightarrow> state \<times> bool" where
  "never s =
     (case timer s of
        Some d \<Rightarrow> (expire d s, True)
      | None \<Rightarrow> (run_timeouts (stale s) (s\<lparr>stale := []\<rparr>), False))"

text \<open>\<open>await delay(ms)\<close>: no request of this attempt is pending.\<close>

definition delay :: "nat \<Rightarrow> state \<Rightarrow> state" where
  "delay ms s = (fire_stale (now s + ms) (emit (Delay ms) s))\<lparr>now := now s + ms\<rparr>"

text \<open>
  What the network does to one \<open>reader.read()\<close>, after the given time: it delivers bytes,
  reports the end of the body, fails, or is cut by the caller aborting the controller
  that \<open>onController\<close> handed out. When the list of reads is used up nothing arrives any
  more and the connection stays open.
\<close>

datatype read_event = Chunk string | Eof | ReadFails string | ReadAborted

datatype outcome = Normal | Throws error | Hangs

text \<open>The loop \<open>while (!done && !aborted)\<close>.\<close>

fun read_loop :: "config \<Rightarrow> state \<Rightarrow> (nat \<times> read_event) list \<Rightarrow> outcome \<times> state" where
  "read_loop c s [] =
     (if done_flag s \<or> aborted s then (Normal, s)
      else (case never s of
              (s', True) \<Rightarrow> (Throws AbortError, s')
            | (s', False) \<Rightarrow> (Hangs, s')))"
| "read_loop c s ((dt, ev) # rs) =
     (if done_flag s \<or> aborted s then (Normal, s)
      else (case advance dt s of
              (s1, True) \<Rightarrow> (Throws AbortError, s1)
            | (s1, False) \<Rightarrow>
                (case ev of
                   Chunk v \<Rightarrow> read_loop c (process_chunk c s1 v) rs
                 | Eof \<Rightarrow> read_loop c (s1\<lparr>done_flag := True\<rparr>) rs
                 | ReadFails e \<Rightarrow> (Throws (NetworkError e), s1)
                 | ReadAborted \<Rightarrow> (Throws AbortError, s1))))"

text \<open>
  \<open>handleApiError\<close>, as the error it throws, from the status, the status text and the
  body text of the response.
\<close>

definition handleApiError :: "config \<Rightarrow> nat \<Rightarrow> string \<Rightarrow> string \<Rightarrow> error" where
  "handleApiError c status statusText txt =
     (let msg0 = ErrorStatus status statusText;
          msg = (case parse c txt of
                   None \<Rightarrow> msg0
                 | Some data \<Rightarrow>
                     (case opt_chain (get_prop ''message'')
                             (opt_chain (get_prop ''error'') (Some data)) of
                        None \<Rightarrow> msg0
                      | Some m \<Rightarrow> if truthy (Some m) then ErrorOf m else msg0))
      in if status = 401 then Error ''Authentication failed: Invalid API key.''
         else if status = 429 then Error ''Rate limit exceeded. Please try again later.''
         else (case msg of
                 ErrorOf m \<Rightarrow> if throws_on_String m then TypeError else ErrorOf m
               | e \<Rightarrow> e))"

text \<open>
  A response: status, status text, body text, and the reads of its body stream (\<open>None\<close>
  when \<open>res.body\<close> is null). What the network does to one \<open>fetch\<close>, after the given
  time: it answers, fails, or is cut by the caller aborting the controller.
\<close>

datatype response = Response nat string string "(nat \<times> read_event) list option"

datatype fetch_event = Responds response | FetchFails string | FetchAborted

datatype step = Return | Retry | Hang

text \<open>
  The \<open>catch\<close> block of the retry loop. An inactivity timer still pending when the block
  is entered is not cleared by it: it joins the stale timers.
\<close>

definition catch_block :: "error \<Rightarrow> state \<Rightarrow> step \<times> state" where
  "catch_block err s0 =
     (let s = (case timer s0 of
                 None \<Rightarrow> s0
               | Some d \<Rightarrow> s0\<lparr>stale := stale s0 @ [d], timer := None\<rparr>)
      in if aborted s then (Return, s)
         else if retries s \<ge> MAX_RETRIES then (Return, emit (OnError err) s)
         else (let s1 = s\<lparr>retries := retries s + 1\<rparr>
               in (Retry, delay (RETRY_DELAY * retries s1) s1)))"

text \<open>The statements after the read loop: the \<open>finally\<close> block, then usage and completion.\<close>

definition complete :: "config \<Rightarrow> state \<Rightarrow> state" where
  "complete c s0 =
     (let s = s0\<lparr>timer := None\<rparr>;
          s1 = (case finalUsage s of
                  None \<Rightarrow> s
                | Some u \<Rightarrow> if has_onUsage c then emit (OnUsage u) s else s)
      in emit OnComplete s1)"

text \<open>
  The body of a response is read: the variables of the read loop are initialised, the
  loop runs, the \<open>finally\<close> block clears the timer, and what the loop threw goes to
  the \<open>catch\<close> block.
\<close>

definition stream_body :: "config \<Rightarrow> state \<Rightarrow> (nat \<times> read_event) list \<Rightarrow> step \<times> state" where
  "stream_body c s5 reads =
     (case read_loop c (s5\<lparr>buffer := [], done_flag := False, receivedDone := False,
                            finalUsage := None, eventDataParts := []\<rparr>) reads of
        (Throws err, s6) \<Rightarrow> catch_block err (s6\<lparr>timer := None\<rparr>)
      | (Hangs, s6) \<Rightarrow> (Hang, s6)
      | (Normal, s6) \<Rightarrow> (Return, complete c s6))"

text \<open>The statements after \<open>await fetch\<close> has given a response.\<close>

definition on_response :: "config \<Rightarrow> state \<Rightarrow> response \<Rightarrow> step \<times> state" where
  "on_response c s4 resp =
     (case resp of
        Response status statusText txt body \<Rightarrow>
          (let s5 = s4\<lparr>timer := None\<rparr> in
           if aborted s5 then (Return, s5)
           else if \<not> (200 \<le> status \<and> status \<le> 299)
             then catch_block (handleApiError c status statusText txt) s5
           else (case body of
               None \<Rightarrow> catch_block (Error ''Response body is null'') s5
             | Some reads \<Rightarrow> stream_body c s5 reads)))"

text \<open>
  One pass through the body of the retry loop. \<open>None\<close> as the event: the network never
  answers this request.
\<close>

definition attempt :: "config \<Rightarrow> state \<Rightarrow> (nat \<times> fetch_event) option \<Rightarrow> step \<times> state" where
  "attempt c s0 env =
     (let s1 = (if has_onController c then emit (OnController (retries s0)) s0 else s0);
          s2 = resetInactivity s1;
          s3 = emit Fetch s2
      in case (case env of None \<Rightarrow> never s3 | Some (dt, ev) \<Rightarrow> advance dt s3) of
           (s4, True) \<Rightarrow> catch_block AbortError s4
         | (s4, False) \<Rightarrow>
             (case env of
                None \<Rightarrow> (Hang, s4)
              | Some (dt, FetchFails e) \<Rightarrow> catch_block (NetworkError e) s4
              | Some (dt, FetchAborted) \<Rightarrow> catch_block AbortError s4
              | Some (dt, Responds resp) \<Rightarrow> on_response c s4 resp))"

text \<open>
  The loop \<open>while (retries <= MAX_RETRIES && !aborted)\<close>. The k-th element of the list
  scripts the k-th request; a request beyond the list is never answered.
\<close>

fun session :: "config \<Rightarrow> state \<Rightarrow> (nat \<times> fetch_event) list \<Rightarrow> step \<times> state" where
  "session c s [] =
     (if retries s \<le> MAX_RETRIES \<and> \<not> aborted s then attempt c s None else (Return, s))"
| "session c s (e # es) =
     (if retries s \<le> MAX_RETRIES \<and> \<not> aborted s
      then (case attempt c s (Some e) of
              (Retry, s') \<Rightarrow> session c s' es
            | r \<Rightarrow> r)
      else (Return, s))"

definition initial :: state where
  "initial = \<lparr>now = 0, aborted = False, retries = 0, trace = [], stale = [], timer = None,
              buffer = [], eventDataParts = [], finalUsage = None, receivedDone = False,
              done_flag = False\<rparr>"

text \<open>
  \<open>streamResponse\<close>: \<open>Inl\<close> is the error thrown by \<open>prepareApiKey\<close>, before anything else
  is done. Otherwise the step tells whether the function returned, and the state holds
  the effects up to then and the timers it left pending.
\<close>

definition streamResponse :: "config \<Rightarrow> nat list \<Rightarrow> (nat \<times> fetch_event) list \<Rightarrow> error + step \<times> state" where
  "streamResponse c apiKey env =
     (case prepareApiKey (use_proxy c) apiKey of
        Inl e \<Rightarrow> Inl e
      | Inr cleanApiKey \<Rightarrow> Inr (session c initial env))"

text \<open>The effects once the timers left pending have run as well.\<close>

definition in_the_end :: "state \<Rightarrow> effect list" where
  "in_the_end s = trace (run_timeouts (stale s @ (case timer s of None \<Rightarrow> [] | Some d \<Rightarrow> [d])) s)"


section \<open>The one-shot request\<close>

text \<open>
  \<open>sendMessage\<close> awaits one response per attempt. A property access without \<open>?.\<close>
  throws a \<open>TypeError\<close> on \<open>null\<close> and \<open>undefined\<close>; \<open>res.json()\<close> rejects when the
  body does not parse.
\<close>

datatype send_event = SendFails string | SendResponds nat string string

datatype 'a settled = Resolved 'a | Rejected error | Pending

fun strict :: "(json \<Rightarrow> json option) \<Rightarrow> error + json option \<Rightarrow> error + json option" where
  "strict f (Inl e) = Inl e"
| "strict f (Inr None) = Inl TypeError"
| "strict f (Inr (Some JNull)) = Inl TypeError"
| "strict f (Inr (Some v)) = Inr (f v)"

text \<open>The \<open>try\<close> block of one attempt: \<open>data.choices[0].message.content\<close> or what is thrown.\<close>

definition send_attempt :: "config \<Rightarrow> send_event \<Rightarrow> error + json option" where
  "send_attempt c ev =
     (case ev of
        SendFails e \<Rightarrow> Inl (NetworkError e)
      | SendResponds status statusText txt \<Rightarrow>
          if \<not> (200 \<le> status \<and> status \<le> 299) then Inl (handleApiError c status statusText txt)
          else (case parse c txt of
                  None \<Rightarrow> Inl (Error ''SyntaxError'')
                | Some data \<Rightarrow>
                    strict (get_prop ''content'')
                      (strict (get_prop ''message'')
                         (strict index0 (strict (get_prop ''choices'') (Inr (Some data)))))))"

text \<open>The error thrown after the loop, from \<open>lastError\<close>.\<close>

definition give_up :: "error option \<Rightarrow> error" where
  "give_up lastError =
     (case lastError of
        Some e \<Rightarrow> Failed e
      | None \<Rightarrow> Error ''Failed to get response from OpenRouter API: Unknown error'')"

fun send_loop ::
  "config \<Rightarrow> nat \<Rightarrow> error option \<Rightarrow> effect list \<Rightarrow> send_event list \<Rightarrow> effect list \<times> json option settled"
where
  "send_loop c tries lastError tr [] =
     (if tries \<le> MAX_RETRIES then (tr @ [Fetch], Pending)
      else (tr, Rejected (give_up lastError)))"
| "send_loop c tries lastError tr (e # es) =
     (if tries \<le> MAX_RETRIES then
        (case send_attempt c e of
           Inr v \<Rightarrow> (tr @ [Fetch], Resolved v)
         | Inl err \<Rightarrow>
             (if tries + 1 > MAX_RETRIES then (tr @ [Fetch], Rejected (give_up (Some err)))
              else send_loop c (tries + 1) (Some err)
                     (tr @ [Fetch, Delay (RETRY_DELAY * (tries + 1))]) es))
      else (tr, Rejected (give_up lastError)))"

definition sendMessage :: "config \<Rightarrow> nat list \<Rightarrow> send_event list \<Rightarrow> effect list \<times> json option settled" where
  "sendMessage c apiKey env =
     (case prepareApiKey (use_proxy c) apiKey of
        Inl e \<Rightarrow> ([], Rejected e)
      | Inr cleanApiKey \<Rightarrow> send_loop c 0 None [] env)"

section \<open>Vocabulary of the properties\<close>

text \<open>Whether a part has a cache annotation; how many parts of a message have one.\<close>

definition annotated :: "part \<Rightarrow> bool" where
  "annotated p = (cache_control p \<noteq> None)"

definition breakpoints :: "message \<Rightarrow> nat" where
  "breakpoints m = (case content m of Parts ps \<Rightarrow> length (filter annotated ps) | _ \<Rightarrow> 0)"

text \<open>A message with a text segment whose estimate reaches the threshold.\<close>

definition eligible :: "enat \<Rightarrow> message \<Rightarrow> bool" where
  "eligible threshold m =
     (case content m of
        Text s \<Rightarrow> threshold \<le> enat (estimateTokens s)
      | Parts ps \<Rightarrow> list_ex (large_text threshold) ps
      | Neither \<Rightarrow> False)"

text \<open>
  The texts of a message: its string, or the \<open>text\<close> of each of its parts in order.
\<close>

definition texts :: "message \<Rightarrow> string option list" where
  "texts m = (case content m of Text s \<Rightarrow> [Some s] | Parts ps \<Rightarrow> map ptext ps | Neither \<Rightarrow> [])"

text \<open>
  \<open>m'\<close> is \<open>m\<close>, or \<open>m\<close> with one change: a string content has become a single text
  part with that string and the annotation \<open>{ type: "ephemeral" }\<close>; or one text part of
  an array content has had its \<open>cache_control\<close> set to \<open>{ type: "ephemeral" }\<close>, whatever
  it was before.
\<close>

definition one_annotation_set :: "message \<Rightarrow> message \<Rightarrow> bool" where
  "one_annotation_set m m' =
     (m' = m \<or>
      (case content m of
         Text s \<Rightarrow> m' = m\<lparr>content := Parts [\<lparr>ptype = ''text'', ptext = Some s,
                                         cache_control = Some ephemeral, pfields = []\<rparr>]\<rparr>
       | Parts ps \<Rightarrow>
           list_ex (\<lambda>k. ptype (ps ! k) = ''text'' \<and>
                       m' = m\<lparr>content := Parts (ps[k := (ps ! k)\<lparr>cache_control := Some ephemeral\<rparr>])\<rparr>)
             [0 ..< length ps]
       | Neither \<Rightarrow> False))"

text \<open>
  \<open>m'\<close> is \<open>m\<close> with the breakpoint on its last large text segment: a string has become
  one annotated text part; of an array, the last large text part is annotated and
  nothing else has changed.
\<close>

definition marked_last :: "enat \<Rightarrow> message \<Rightarrow> message \<Rightarrow> bool" where
  "marked_last threshold m m' =
     (case content m of
        Text s \<Rightarrow> m' = m\<lparr>content := Parts [\<lparr>ptype = ''text'', ptext = Some s,
                                        cache_control = Some ephemeral, pfields = []\<rparr>]\<rparr>
      | Parts ps \<Rightarrow>
          list_ex (\<lambda>k. large_text threshold (ps ! k) \<and>
                      list_all (\<lambda>j. \<not> large_text threshold (ps ! j)) [Suc k ..< length ps] \<and>
                      m' = m\<lparr>content := Parts (ps[k := (ps ! k)\<lparr>cache_control := Some ephemeral\<rparr>])\<rparr>)
            [0 ..< length ps]
      | Neither \<Rightarrow> False)"

text \<open>
  A header value that repeats the scheme word: it is \<open>Bearer Bearer\<close>, or begins with
  \<open>Bearer Bearer\<close> and a blank, whatever the case of the letters.
\<close>

definition repeats_scheme :: "nat list \<Rightarrow> bool" where
  "repeats_scheme v =
     (map lower_ascii v = lit ''bearer bearer'' \<or>
      map lower_ascii (take 14 v) = lit ''bearer bearer '')"

definition authorization :: "(string \<times> nat list) list \<Rightarrow> nat list option" where
  "authorization headers = map_of headers ''Authorization''"

text \<open>
  The bytes a list of reads delivers before the body ends or a read fails; the arguments
  of the \<open>onChunk\<close> calls among some effects, and the text they add up to.
\<close>

fun delivered :: "(nat \<times> read_event) list \<Rightarrow> string" where
  "delivered [] = []"
| "delivered ((dt, Chunk v) # rs) = v @ delivered rs"
| "delivered (r # rs) = []"

fun chunk_args :: "effect list \<Rightarrow> json list" where
  "chunk_args [] = []"
| "chunk_args (OnChunk v # es) = v # chunk_args es"
| "chunk_args (e # es) = chunk_args es"

fun chunk_text :: "json list \<Rightarrow> string" where
  "chunk_text [] = []"
| "chunk_text (JStr d # vs) = d @ chunk_text vs"
| "chunk_text (v # vs) = chunk_text vs"

text \<open>
  What the caller has seen of a stream: the effects, the usage snapshot, the terminator.
  The state without the clock, the timer and the buffer. Reading on after a first read,
  unless the terminator has been met.
\<close>

definition seen :: "state \<Rightarrow> effect list \<times> json option \<times> bool" where
  "seen s = (trace s, finalUsage s, receivedDone s)"

definition core :: "state \<Rightarrow> state" where
  "core s = s\<lparr>now := 0, timer := None, buffer := []\<rparr>"

definition more_bytes :: "config \<Rightarrow> state \<Rightarrow> string \<Rightarrow> state" where
  "more_bytes c t b = (if done_flag t then t else process_chunk c t b)"

text \<open>Reads that deliver bytes and then report the end of the body.\<close>

fun ends_cleanly :: "(nat \<times> read_event) list \<Rightarrow> bool" where
  "ends_cleanly [] = False"
| "ends_cleanly ((dt, Eof) # rs) = True"
| "ends_cleanly ((dt, Chunk v) # rs) = ends_cleanly rs"
| "ends_cleanly (r # rs) = False"

text \<open>A payload that fits on one \<open>data:\<close> line and is not the terminator.\<close>

definition one_line :: "string \<Rightarrow> bool" where
  "one_line p = (LF \<notin> set p \<and> \<not> endsWith p [CR] \<and> p \<noteq> ''[DONE]'')"

text \<open>
  A payload that parses to an object whose first choice has the content delta \<open>d\<close>, and
  whose reasoning delta, when it is handed to \<open>onReasoningChunk\<close>, converts to a string.
\<close>

definition reasoning_throws :: "config \<Rightarrow> json \<Rightarrow> bool" where
  "reasoning_throws c parsed =
     (case reasoning_delta parsed of
        None \<Rightarrow> False
      | Some r \<Rightarrow> truthy (Some r) \<and> has_onReasoningChunk c \<and> throws_on_String r)"

definition carries :: "config \<Rightarrow> string \<Rightarrow> string \<Rightarrow> bool" where
  "carries c p d =
     (case parse c p of
        None \<Rightarrow> False
      | Some JNull \<Rightarrow> False
      | Some parsed \<Rightarrow>
          content_delta parsed = Some (JStr d) \<and> \<not> reasoning_throws c parsed)"

text \<open>
  The effects of a run of \<open>streamResponse\<close> up to its return, and once the timers it
  left pending have run; the number of requests and the errors given to \<open>onError\<close>
  among some effects; the call of \<open>onController\<close> of the k-th attempt, if the caller
  supplied the callback.
\<close>

definition effects :: "error + step \<times> state \<Rightarrow> effect list" where
  "effects r = (case r of Inl e \<Rightarrow> [] | Inr (st, s) \<Rightarrow> trace s)"

definition effects_in_the_end :: "error + step \<times> state \<Rightarrow> effect list" where
  "effects_in_the_end r = (case r of Inl e \<Rightarrow> [] | Inr (st, s) \<Rightarrow> in_the_end s)"

definition requests :: "effect list \<Rightarrow> nat" where
  "requests es = length (filter (\<lambda>e. e = Fetch) es)"

definition errors :: "effect list \<Rightarrow> error list" where
  "errors es = concat (map (\<lambda>e. case e of OnError x \<Rightarrow> [x] | _ \<Rightarrow> []) es)"

definition returned :: "error + step \<times> state \<Rightarrow> bool" where
  "returned r = (case r of Inr (Return, s) \<Rightarrow> True | _ \<Rightarrow> False)"

definition handed :: "config \<Rightarrow> nat \<Rightarrow> effect list" where
  "handed c k = (if has_onController c then [OnController k] else [])"

text \<open>The message the server gave in the body of an error response, if it gave one.\<close>

definition server_message :: "config \<Rightarrow> string \<Rightarrow> json option" where
  "server_message c body =
     (case parse c body of
        None \<Rightarrow> None
      | Some data \<Rightarrow>
          (case opt_chain (get_prop ''message'') (opt_chain (get_prop ''error'') (Some data)) of
             None \<Rightarrow> None
           | Some m \<Rightarrow> if truthy (Some m) then Some m else None))"

text \<open>
  The first request gets no answer within the inactivity interval; the next read does
  not complete before the deadline \<open>d\<close>.
\<close>

definition unanswered :: "(nat \<times> fetch_event) list \<Rightarrow> bool" where
  "unanswered env = (case env of [] \<Rightarrow> True | (dt, ev) # rest \<Rightarrow> inactivityTimeoutMs \<le> dt)"

definition silent :: "nat \<Rightarrow> state \<Rightarrow> (nat \<times> read_event) list \<Rightarrow> bool" where
  "silent d s rs = (case rs of [] \<Rightarrow> True | (dt, ev) # rest \<Rightarrow> d \<le> now s + dt)"

text \<open>
  A request is issued after the stall error has been given to \<open>onError\<close>. A state in
  which that has not happened, and in which the stall error has been given only if
  \<open>aborted\<close> is set. A later state that has added no request, and the stall error only
  with \<open>aborted\<close> set.
\<close>

definition retried_after_stall :: "effect list \<Rightarrow> bool" where
  "retried_after_stall es = (Fetch \<in> set (dropWhile (\<lambda>e. e \<noteq> OnError stalled) es))"

definition calm :: "state \<Rightarrow> bool" where
  "calm s = ((\<not> aborted s \<longrightarrow> OnError stalled \<notin> set (trace s)) \<and>
             \<not> retried_after_stall (trace s))"

definition follows :: "state \<Rightarrow> state \<Rightarrow> bool" where
  "follows s s' =
     (\<exists>xs. trace s' = trace s @ xs \<and> Fetch \<notin> set xs \<and>
           (OnError stalled \<in> set xs \<longrightarrow> aborted s') \<and> (aborted s \<longrightarrow> aborted s'))"

section \<open>Sample inputs\<close>

definition big_message :: message where
  "big_message = \<lparr>role = ''user'', content = Text (replicate 20000 (CHR ''x'')), others = []\<rparr>"

text \<open>
  A stand-in for \<open>JSON.parse\<close> on the payloads and bodies used below; anything else
  fails to parse.
\<close>

definition delta_json :: "string \<Rightarrow> json" where
  "delta_json d = JObj [(''choices'', JArr [JObj [(''delta'', JObj [(''content'', JStr d)])]])]"

definition sample_parse :: "string \<Rightarrow> json option" where
  \<open>sample_parse s =
     (if s = ''{"choices":[{"delta":{"content":"Hel"}}]}'' then Some (delta_json ''Hel'')
      else if s = ''{"choices":[{"delta":{"content":"lo"}}]}'' then Some (delta_json ''lo'')
      else if s = ''{"error":{"message":"No credits"}}''
        then Some (JObj [(''error'', JObj [(''message'', JStr ''No credits'')])])
      else None)\<close>

definition sample :: config where
  "sample = \<lparr>parse = sample_parse, use_proxy = False, has_onController = True,
              has_onReasoningChunk = True, has_onUsage = True\<rparr>"

definition sample_proxy :: config where
  "sample_proxy = sample\<lparr>use_proxy := True\<rparr>"

text \<open>
  A message whose one part is a large text that already carries an annotation with a
  time to live.
\<close>

definition ttl_part :: part where
  "ttl_part = \<lparr>ptype = ''text'', ptext = Some (replicate 20000 CHR ''x''),
              cache_control = Some (JObj [(''type'', JStr ''ephemeral''), (''ttl'', JStr ''1h'')]),
              pfields = []\<rparr>"

definition ttl_message :: message where
  "ttl_message = \<lparr>role = ''user'', content = Parts [ttl_part], others = []\<rparr>"

text \<open>One event on the wire: a \<open>data: \<close> line with the payload, then a blank line.\<close>

definition sse_event :: "string \<Rightarrow> string" where
  "sse_event payload = ''data: '' @ payload @ [LF, LF]"

definition hel :: string where
  \<open>hel = ''{"choices":[{"delta":{"content":"Hel"}}]}''\<close>

definition lo :: string where
  \<open>lo = ''{"choices":[{"delta":{"content":"lo"}}]}''\<close>

section \<open>Facts about the cache transformation\<close>

lemma annotate_first_hit:
  "snd (annotate_first t ps) = list_ex (large_text t) ps"
  by (induction ps) (auto split: prod.splits)

lemma annotate_first_miss:
  "\<not> list_ex (large_text t) ps \<Longrightarrow> fst (annotate_first t ps) = ps"
  by (induction ps) (auto split: prod.splits)

lemma annotate_first_pos:
  "list_ex (large_text t) ps \<Longrightarrow>
   \<exists>k < length ps. large_text t (ps ! k) \<and> (\<forall>j < k. \<not> large_text t (ps ! j)) \<and>
     fst (annotate_first t ps) = ps[k := (ps ! k)\<lparr>cache_control := Some ephemeral\<rparr>]"
proof (induction ps)
  case Nil
  then show ?case by simp
next
  case (Cons p ps)
  show ?case
  proof (cases "large_text t p")
    case True
    then show ?thesis by (intro exI[of _ 0]) simp
  next
    case False
    with Cons.prems have "list_ex (large_text t) ps" by simp
    from Cons.IH[OF this] obtain k where k: "k < length ps" "large_text t (ps ! k)"
      "\<forall>j < k. \<not> large_text t (ps ! j)"
      "fst (annotate_first t ps) = ps[k := (ps ! k)\<lparr>cache_control := Some ephemeral\<rparr>]"
      by blast
    show ?thesis
    proof (intro exI[of _ "Suc k"] conjI allI impI)
      fix j assume "j < Suc k"
      then show "\<not> large_text t ((p # ps) ! j)" using False k(3) by (cases j) auto
    qed (use k False in \<open>auto split: prod.splits\<close>)
  qed
qed

lemma annotate_first_count:
  "length (filter annotated (fst (annotate_first t ps))) \<le> Suc (length (filter annotated ps))"
  by (induction ps) (auto simp: annotated_def split: prod.splits)

lemma annotate_first_count_plain:
  "\<forall>p \<in> set ps. \<not> annotated p \<Longrightarrow>
   length (filter annotated (fst (annotate_first t ps))) = (if list_ex (large_text t) ps then 1 else 0)"
  by (induction ps) (auto simp: annotated_def split: prod.splits)

lemma annotate_last_fst: "fst (annotate_last t ps) = rev (fst (annotate_first t (rev ps)))"
  by (simp add: annotate_last_def split: prod.splits)

lemma annotate_last_snd: "snd (annotate_last t ps) = snd (annotate_first t (rev ps))"
  by (simp add: annotate_last_def split: prod.splits)

lemma annotate_last_hit:
  "snd (annotate_last t ps) = list_ex (large_text t) ps"
  by (simp add: annotate_last_snd annotate_first_hit list_ex_iff)

lemma annotate_last_miss:
  "\<not> list_ex (large_text t) ps \<Longrightarrow> fst (annotate_last t ps) = ps"
  by (simp add: annotate_last_fst annotate_first_miss list_ex_iff)

lemma annotate_last_pos:
  assumes "list_ex (large_text t) ps"
  shows "\<exists>k < length ps. large_text t (ps ! k) \<and>
     (\<forall>j < length ps. k < j \<longrightarrow> \<not> large_text t (ps ! j)) \<and>
     fst (annotate_last t ps) = ps[k := (ps ! k)\<lparr>cache_control := Some ephemeral\<rparr>]"
proof -
  from assms have "list_ex (large_text t) (rev ps)" by (simp add: list_ex_iff)
  from annotate_first_pos [OF this] obtain k where k: "k < length ps"
    "large_text t (rev ps ! k)" "\<forall>j < k. \<not> large_text t (rev ps ! j)"
    "fst (annotate_first t (rev ps)) = (rev ps)[k := (rev ps ! k)\<lparr>cache_control := Some ephemeral\<rparr>]"
    by auto
  let ?i = "length ps - Suc k"
  have i: "?i < length ps" using k(1) by simp
  have nth: "rev ps ! k = ps ! ?i" using k(1) by (simp add: rev_nth)
  have later: "\<not> large_text t (ps ! j)" if "j < length ps" "?i < j" for j
  proof -
    have "length ps - Suc j < k" using that k(1) by arith
    then have "\<not> large_text t (rev ps ! (length ps - Suc j))" using k(3) by blast
    moreover have "rev ps ! (length ps - Suc j) = ps ! j"
      using that by (simp add: rev_nth)
    ultimately show ?thesis by simp
  qed
  have "fst (annotate_last t ps) = rev ((rev ps)[k := (ps ! ?i)\<lparr>cache_control := Some ephemeral\<rparr>])"
    using k(4) nth by (simp add: annotate_last_fst)
  also have "\<dots> = ps[?i := (ps ! ?i)\<lparr>cache_control := Some ephemeral\<rparr>]"
    using k(1) by (simp add: rev_update)
  finally show ?thesis using i k(2) nth later by (intro exI[of _ ?i]) auto
qed

lemma annotate_last_count:
  "length (filter annotated (fst (annotate_last t ps))) \<le> Suc (length (filter annotated ps))"
  using annotate_first_count [of t "rev ps"]
  by (simp add: annotate_last_fst flip: rev_filter)

lemma annotate_last_count_plain:
  assumes "\<forall>p \<in> set ps. \<not> annotated p"
  shows "length (filter annotated (fst (annotate_last t ps))) =
     (if list_ex (large_text t) ps then 1 else 0)"
proof -
  have "length (filter annotated (fst (annotate_first t (rev ps)))) =
     (if list_ex (large_text t) (rev ps) then 1 else 0)"
    using assms by (intro annotate_first_count_plain) simp
  then show ?thesis
    by (simp add: annotate_last_fst list_ex_iff flip: rev_filter)
qed


lemma cache_map_length: "length (cache_map r t ms) = length ms"
  by (induction ms arbitrary: r) (auto split: content.splits prod.splits)

lemma cache_map_zero: "cache_map 0 t ms = ms"
  by (induction ms) auto

lemma one_annotation_set_refl: "one_annotation_set m m"
  by (simp add: one_annotation_set_def)

lemma one_annotation_set_parts:
  assumes "content m = Parts ps"
  shows "one_annotation_set m (m\<lparr>content := Parts (fst (annotate_last t ps))\<rparr>)"
proof (cases "list_ex (large_text t) ps")
  case False
  then have "fst (annotate_last t ps) = ps" by (rule annotate_last_miss)
  then have "m\<lparr>content := Parts (fst (annotate_last t ps))\<rparr> = m" using assms by simp
  then show ?thesis by (simp add: one_annotation_set_def)
next
  case True
  from annotate_last_pos [OF True] obtain k where k: "k < length ps" "large_text t (ps ! k)"
    "fst (annotate_last t ps) = ps[k := (ps ! k)\<lparr>cache_control := Some ephemeral\<rparr>]" by blast
  have "ptype (ps ! k) = ''text''" using k(2) by (simp add: large_text_def)
  then show ?thesis using assms k(1,3)
    by (auto simp: one_annotation_set_def list_ex_iff intro!: bexI [of _ k])
qed

lemma one_annotation_set_text:
  "content m = Text s \<Longrightarrow>
   one_annotation_set m (m\<lparr>content := Parts [\<lparr>ptype = ''text'', ptext = Some s,
                                         cache_control = Some ephemeral, pfields = []\<rparr>]\<rparr>)"
  by (simp add: one_annotation_set_def)

lemma cache_map_one: "list_all2 one_annotation_set ms (cache_map r t ms)"
proof (induction ms arbitrary: r)
  case Nil
  then show ?case by simp
next
  case (Cons m ms)
  show ?case
  proof (cases "content m")
    case (Text s)
    then show ?thesis using Cons.IH one_annotation_set_refl one_annotation_set_text [OF Text]
      by simp
  next
    case (Parts ps)
    then show ?thesis using Cons.IH one_annotation_set_refl one_annotation_set_parts [OF Parts, of t]
      by (auto split: prod.splits)
  next
    case Neither
    then show ?thesis using Cons.IH one_annotation_set_refl by simp
  qed
qed

lemma one_annotation_set_keeps:
  assumes "one_annotation_set m m'"
  shows "role m' = role m \<and> others m' = others m \<and> texts m' = texts m"
proof (cases "m' = m")
  case True
  then show ?thesis by simp
next
  case False
  show ?thesis
  proof (cases "content m")
    case (Text s)
    then show ?thesis using assms False by (simp add: one_annotation_set_def texts_def)
  next
    case (Parts ps)
    then obtain k where "m' = m\<lparr>content := Parts (ps[k := (ps ! k)\<lparr>cache_control := Some ephemeral\<rparr>])\<rparr>"
      using assms False by (auto simp: one_annotation_set_def list_ex_iff)
    moreover have "(map ptext ps)[k := ptext (ps ! k)] = map ptext ps"
      by (metis list_update_id map_update)
    ultimately show ?thesis using Parts by (simp add: texts_def map_update)
  next
    case Neither
    then show ?thesis using assms False by (simp add: one_annotation_set_def)
  qed
qed

lemma list_all2_map_eq:
  "list_all2 R xs ys \<Longrightarrow> (\<And>x y. R x y \<Longrightarrow> f y = f x) \<Longrightarrow> map f ys = map f xs"
  by (induction rule: list_all2_induct) auto

lemma breakpoints_plain_parts:
  "content m = Parts ps \<Longrightarrow> breakpoints m = 0 \<Longrightarrow> \<forall>p \<in> set ps. \<not> annotated p"
  by (auto simp: breakpoints_def filter_empty_conv)

lemma breakpoints_update [simp]:
  "breakpoints (m\<lparr>content := Parts ps\<rparr>) = length (filter annotated ps)"
  by (simp add: breakpoints_def)

lemma cache_map_Cons:
  "cache_map r t (m # ms) =
     (if r = 0 then m # ms
      else (case content m of
          Text s \<Rightarrow> if eligible t m
            then m\<lparr>content := Parts [\<lparr>ptype = ''text'', ptext = Some s,
                                         cache_control = Some ephemeral, pfields = []\<rparr>]\<rparr>
            else m
        | Parts ps \<Rightarrow> m\<lparr>content := Parts (fst (annotate_last t ps))\<rparr>
        | Neither \<Rightarrow> m) # cache_map (if eligible t m then r - 1 else r) t ms)"
proof (cases "content m")
  case (Parts ps)
  obtain ps' hit where al: "annotate_last t ps = (ps', hit)" by (cases "annotate_last t ps")
  then have "hit = list_ex (large_text t) ps" using annotate_last_hit [of t ps] by simp
  with al Parts show ?thesis by (simp add: cache_map_zero eligible_def)
qed (simp_all add: cache_map_zero eligible_def)

declare cache_map.simps(2) [simp del]

lemma cache_map_total:
  "\<forall>m \<in> set ms. breakpoints m = 0 \<Longrightarrow> sum_list (map breakpoints (cache_map r t ms)) \<le> r"
proof (induction ms arbitrary: r)
  case Nil
  then show ?case by simp
next
  case (Cons m ms)
  show ?case
  proof (cases "r = 0")
    case True
    with Cons.prems show ?thesis by (simp add: cache_map_zero)
  next
    case False
    have tl: "sum_list (map breakpoints (cache_map r' t ms)) \<le> r'" for r'
      using Cons.IH Cons.prems by simp
    have hd0: "breakpoints m = 0" using Cons.prems by simp
    show ?thesis
    proof (cases "content m")
      case (Text s)
      then show ?thesis using False tl [of r] tl [of "r - 1"] hd0
        by (auto simp: cache_map_Cons annotated_def)
    next
      case (Parts ps)
      have "length (filter annotated (fst (annotate_last t ps))) = (if eligible t m then 1 else 0)"
        using annotate_last_count_plain [OF breakpoints_plain_parts [OF Parts hd0], of t] Parts
        by (simp add: eligible_def)
      then show ?thesis using False tl [of r] tl [of "r - 1"] Parts
        by (auto simp: cache_map_Cons)
    next
      case Neither
      then show ?thesis using False tl [of r] hd0
        by (auto simp: cache_map_Cons eligible_def)
    qed
  qed
qed

lemma cache_map_each:
  "\<forall>m \<in> set ms. breakpoints m = 0 \<Longrightarrow> \<forall>m' \<in> set (cache_map r t ms). breakpoints m' \<le> 1"
proof (induction ms arbitrary: r)
  case Nil
  then show ?case by simp
next
  case (Cons m ms)
  have tl: "\<forall>m' \<in> set (cache_map r' t ms). breakpoints m' \<le> 1" for r'
    using Cons.IH Cons.prems by simp
  have hd0: "breakpoints m = 0" using Cons.prems by simp
  show ?case
  proof (cases "content m")
    case (Text s)
    then show ?thesis using tl [of r] tl [of "r - 1"] hd0 Cons.prems
      by (auto simp: cache_map_Cons annotated_def)
  next
    case (Parts ps)
    have "length (filter annotated (fst (annotate_last t ps))) \<le> 1"
      using annotate_last_count_plain [OF breakpoints_plain_parts [OF Parts hd0], of t] by simp
    then show ?thesis using tl [of r] tl [of "r - 1"] Parts Cons.prems
      by (auto simp: cache_map_Cons)
  next
    case Neither
    then show ?thesis using tl [of r] hd0 Cons.prems
      by (auto simp: cache_map_Cons eligible_def)
  qed
qed

lemma marked_last_parts:
  assumes "content m = Parts ps" "list_ex (large_text t) ps"
  shows "marked_last t m (m\<lparr>content := Parts (fst (annotate_last t ps))\<rparr>)"
proof -
  from annotate_last_pos [OF assms(2)] obtain k where "k < length ps" "large_text t (ps ! k)"
    "\<forall>j < length ps. k < j \<longrightarrow> \<not> large_text t (ps ! j)"
    "fst (annotate_last t ps) = ps[k := (ps ! k)\<lparr>cache_control := Some ephemeral\<rparr>]"
    by blast
  then show ?thesis using assms(1)
    by (auto simp: marked_last_def list_ex_iff list_all_iff intro!: bexI [of _ k])
qed

lemma cache_map_hit:
  "\<forall>m \<in> set ms. breakpoints m = 0 \<Longrightarrow> i < length ms \<Longrightarrow> eligible t (ms ! i) \<Longrightarrow>
   length (filter (eligible t) (take i ms)) < r \<Longrightarrow>
   breakpoints (cache_map r t ms ! i) = 1 \<and> marked_last t (ms ! i) (cache_map r t ms ! i)"
proof (induction ms arbitrary: r i)
  case Nil
  then show ?case by simp
next
  case (Cons m ms)
  have hd0: "breakpoints m = 0" using Cons.prems by simp
  have r: "r \<noteq> 0" using Cons.prems(4) by simp
  show ?case
  proof (cases i)
    case 0
    then have el: "eligible t m" using Cons.prems(3) by simp
    show ?thesis
    proof (cases "content m")
      case (Text s)
      then show ?thesis using 0 el r
        by (simp add: cache_map_Cons annotated_def marked_last_def)
    next
      case (Parts ps)
      have ex: "list_ex (large_text t) ps" using el Parts by (simp add: eligible_def)
      have "length (filter annotated (fst (annotate_last t ps))) = 1"
        using annotate_last_count_plain [OF breakpoints_plain_parts [OF Parts hd0], of t] ex
        by simp
      then show ?thesis using 0 r Parts marked_last_parts [OF Parts ex]
        by (simp add: cache_map_Cons)
    next
      case Neither
      then show ?thesis using el by (simp add: eligible_def)
    qed
  next
    case (Suc j)
    let ?r' = "if eligible t m then r - 1 else r"
    have "length (filter (eligible t) (take j ms)) < ?r'"
      using Cons.prems(4) Suc by (auto split: if_splits)
    from Cons.IH [OF _ _ _ this, of ] Cons.prems Suc
    have "breakpoints (cache_map ?r' t ms ! j) = 1 \<and>
          marked_last t (ms ! j) (cache_map ?r' t ms ! j)" by simp
    then show ?thesis using Suc r by (simp add: cache_map_Cons)
  qed
qed

lemma threshold_cache_capable:
  "shouldInsertCacheControl model \<Longrightarrow> getCacheTokenThreshold model = enat 4096"
  by (auto simp: shouldInsertCacheControl_def getCacheTokenThreshold_def Let_def)


lemma cache_map_miss:
  "i < length ms \<Longrightarrow> \<not> eligible t (ms ! i) \<or> r \<le> length (filter (eligible t) (take i ms)) \<Longrightarrow>
   cache_map r t ms ! i = ms ! i"
proof (induction ms arbitrary: r i)
  case Nil
  then show ?case by simp
next
  case (Cons m ms)
  show ?case
  proof (cases i)
    case 0
    show ?thesis
    proof (cases "r = 0")
      case True
      then show ?thesis by (simp add: cache_map_zero)
    next
      case False
      with Cons.prems 0 have ne: "\<not> eligible t m" by simp
      show ?thesis
      proof (cases "content m")
        case (Parts ps)
        with ne have "fst (annotate_last t ps) = ps"
          by (simp add: eligible_def annotate_last_miss)
        with Parts have "m\<lparr>content := Parts (fst (annotate_last t ps))\<rparr> = m" by simp
        with Parts False 0 show ?thesis by (simp add: cache_map_Cons)
      qed (use ne False 0 in \<open>simp_all add: cache_map_Cons\<close>)
    qed
  next
    case (Suc j)
    show ?thesis
    proof (cases "r = 0")
      case True
      then show ?thesis by (simp add: cache_map_zero)
    next
      case False
      let ?r' = "if eligible t m then r - 1 else r"
      have "\<not> eligible t (ms ! j) \<or> ?r' \<le> length (filter (eligible t) (take j ms))"
        using Cons.prems(2) Suc by (auto split: if_splits)
      moreover have "j < length ms" using Cons.prems(1) Suc by simp
      ultimately have "cache_map ?r' t ms ! j = ms ! j" by (rule Cons.IH [rotated])
      then show ?thesis using Suc False by (simp add: cache_map_Cons)
    qed
  qed
qed

lemma family_claude: "detectModelFamily ''anthropic/claude-3'' = Anthropic"
  by (simp add: detectModelFamily_def toLowerCase_def toLowerCase_char_def startsWith_def)

lemma family_gpt: "detectModelFamily ''openai/gpt-4o'' = Openai"
  by (simp add: detectModelFamily_def toLowerCase_def toLowerCase_char_def startsWith_def)

text \<open>
  C7 fails as stated: of five large messages sent to a cache-capable model, the fifth is
  at or above the threshold and gets no annotated segment.
\<close>

theorem cache_fifth_message_counterexample:
  "shouldInsertCacheControl ''anthropic/claude-3'' \<and>
   eligible (getCacheTokenThreshold ''anthropic/claude-3'')
     ([big_message, big_message, big_message, big_message, big_message] ! 4) \<and>
   breakpoints (transformMessagesForCaching
     [big_message, big_message, big_message, big_message, big_message] ''anthropic/claude-3'' ! 4) = 0"
  by (simp add: shouldInsertCacheControl_def getCacheTokenThreshold_def family_claude
      transformMessagesForCaching_def MAX_CACHE_BREAKPOINTS_def cache_map_Cons eligible_def
      big_message_def estimateTokens_def breakpoints_def)


section \<open>Cache breakpoints\<close>

text \<open>
  C9 fails as stated: the transformation does not only add annotations. A large text part
  that already carries \<open>{ type: "ephemeral", ttl: "1h" }\<close> comes out with
  \<open>{ type: "ephemeral" }\<close>: its annotation has been replaced and the time to live is
  lost, while the number of annotated parts is what it was.
\<close>

theorem transform_overwrites_annotation_counterexample:
  "shouldInsertCacheControl ''anthropic/claude-3'' \<and>
   cache_control ttl_part = Some (JObj [(''type'', JStr ''ephemeral''), (''ttl'', JStr ''1h'')]) \<and>
   transformMessagesForCaching [ttl_message] ''anthropic/claude-3'' =
     [ttl_message\<lparr>content := Parts [ttl_part\<lparr>cache_control := Some ephemeral\<rparr>]\<rparr>] \<and>
   ttl_part\<lparr>cache_control := Some ephemeral\<rparr> \<noteq> ttl_part \<and>
   breakpoints (transformMessagesForCaching [ttl_message] ''anthropic/claude-3'' ! 0) =
     breakpoints ttl_message"
  by (simp add: shouldInsertCacheControl_def getCacheTokenThreshold_def family_claude
      transformMessagesForCaching_def MAX_CACHE_BREAKPOINTS_def cache_map_Cons
      ttl_message_def ttl_part_def annotate_last_def large_text_def estimateTokens_def
      breakpoints_def annotated_def ephemeral_def)

text \<open>
  C9, as the code has it. For every message list and model, \<open>transformMessagesForCaching\<close>
  returns a list of the same length with the same roles, the same other fields and the
  same texts at each position, in which each message is the input message or differs
  from it by one change: its string content has become a single text part with the
  identical string and the annotation \<open>{ type: "ephemeral" }\<close>, or the \<open>cache_control\<close> of
  one of its text parts has been set to \<open>{ type: "ephemeral" }\<close>, replacing the annotation
  the part had if it had one.
\<close>

theorem transform_sets_one_annotation:
  "length (transformMessagesForCaching messages model) = length messages \<and>
   map role (transformMessagesForCaching messages model) = map role messages \<and>
   map others (transformMessagesForCaching messages model) = map others messages \<and>
   map texts (transformMessagesForCaching messages model) = map texts messages \<and>
   list_all2 one_annotation_set messages (transformMessagesForCaching messages model)"
proof -
  have all: "list_all2 one_annotation_set messages (transformMessagesForCaching messages model)"
  proof (cases "shouldInsertCacheControl model")
    case True
    then show ?thesis by (simp add: transformMessagesForCaching_def cache_map_one)
  next
    case False
    have "list_all2 one_annotation_set messages messages"
      by (simp add: list_all2_conv_all_nth one_annotation_set_refl)
    with False show ?thesis by (simp add: transformMessagesForCaching_def)
  qed
  have "length (transformMessagesForCaching messages model) = length messages"
    using all by (simp add: list_all2_lengthD)
  moreover have "map role (transformMessagesForCaching messages model) = map role messages"
    using all by (rule list_all2_map_eq) (simp add: one_annotation_set_keeps)
  moreover have "map others (transformMessagesForCaching messages model) = map others messages"
    using all by (rule list_all2_map_eq) (simp add: one_annotation_set_keeps)
  moreover have "map texts (transformMessagesForCaching messages model) = map texts messages"
    using all by (rule list_all2_map_eq) (simp add: one_annotation_set_keeps)
  ultimately show ?thesis using all by simp
qed


theorem transform_sets_one_annotation_witness:
  "length (transformMessagesForCaching [big_message] ''anthropic/claude-3'') = 1 \<and>
   map texts (transformMessagesForCaching [big_message] ''anthropic/claude-3'') =
     [[Some (replicate 20000 CHR ''x'')]] \<and>
   one_annotation_set big_message
     (transformMessagesForCaching [big_message] ''anthropic/claude-3'' ! 0) \<and>
   transformMessagesForCaching [big_message] ''anthropic/claude-3'' \<noteq> [big_message]"
proof -
  have "transformMessagesForCaching [big_message] ''anthropic/claude-3'' \<noteq> [big_message]"
    by (simp add: shouldInsertCacheControl_def getCacheTokenThreshold_def family_claude
      transformMessagesForCaching_def MAX_CACHE_BREAKPOINTS_def cache_map_Cons
      big_message_def estimateTokens_def eligible_def)
  moreover have "texts big_message = [Some (replicate 20000 CHR ''x'')]"
    by (simp add: texts_def big_message_def)
  ultimately show ?thesis
    using transform_sets_one_annotation [of "[big_message]" "''anthropic/claude-3''"]
    by (cases "transformMessagesForCaching [big_message] ''anthropic/claude-3''") auto
qed

text \<open>
  C7, as the code has it. Let the messages carry no cache annotation of their own. For a
  cache-capable model (anthropic or gemini family) the threshold is 4096 estimated tokens;
  no message of the built list has more than one annotated segment; the built list has at
  most 4 annotated segments; a message with a text segment at or above the threshold that
  has fewer than 4 such messages before it gets exactly one annotated segment, on its last
  such segment; every other message is passed on unchanged. For any other model the list
  is returned as it is.
\<close>

theorem cache_breakpoints_within_budget:
  assumes "\<forall>m \<in> set messages. breakpoints m = 0"
  shows "(shouldInsertCacheControl model \<longrightarrow>
            getCacheTokenThreshold model = enat 4096 \<and>
            (\<forall>m' \<in> set (transformMessagesForCaching messages model). breakpoints m' \<le> 1) \<and>
            sum_list (map breakpoints (transformMessagesForCaching messages model)) \<le> 4 \<and>
            (\<forall>i < length messages.
               if eligible (enat 4096) (messages ! i) \<and>
                  length (filter (eligible (enat 4096)) (take i messages)) < 4
               then breakpoints (transformMessagesForCaching messages model ! i) = 1 \<and>
                    marked_last (enat 4096) (messages ! i)
                      (transformMessagesForCaching messages model ! i)
               else transformMessagesForCaching messages model ! i = messages ! i)) \<and>
         (\<not> shouldInsertCacheControl model \<longrightarrow>
            transformMessagesForCaching messages model = messages)"
proof (cases "shouldInsertCacheControl model")
  case False
  then show ?thesis by (simp add: transformMessagesForCaching_def)
next
  case True
  have thr: "getCacheTokenThreshold model = enat 4096"
    using True by (rule threshold_cache_capable)
  have T: "transformMessagesForCaching messages model = cache_map 4 (enat 4096) messages"
    using True thr by (simp add: transformMessagesForCaching_def MAX_CACHE_BREAKPOINTS_def)
  have each: "\<forall>m' \<in> set (cache_map 4 (enat 4096) messages). breakpoints m' \<le> 1"
    using assms by (rule cache_map_each)
  have total: "sum_list (map breakpoints (cache_map 4 (enat 4096) messages)) \<le> 4"
    using assms by (rule cache_map_total)
  have pos: "if eligible (enat 4096) (messages ! i) \<and>
                length (filter (eligible (enat 4096)) (take i messages)) < 4
             then breakpoints (cache_map 4 (enat 4096) messages ! i) = 1 \<and>
                  marked_last (enat 4096) (messages ! i) (cache_map 4 (enat 4096) messages ! i)
             else cache_map 4 (enat 4096) messages ! i = messages ! i"
    if "i < length messages" for i
    using cache_map_hit [OF assms that, of "enat 4096" 4]
      cache_map_miss [OF that, of "enat 4096" 4]
    by (auto simp: not_less)
  show ?thesis using True thr each total pos unfolding T by blast
qed

theorem cache_breakpoints_within_budget_witness:
  "breakpoints big_message = 0 \<and>
   shouldInsertCacheControl ''anthropic/claude-3'' \<and>
   eligible (enat 4096) ([big_message] ! 0) \<and>
   breakpoints (transformMessagesForCaching [big_message] ''anthropic/claude-3'' ! 0) = 1 \<and>
   \<not> shouldInsertCacheControl ''openai/gpt-4o'' \<and>
   transformMessagesForCaching [big_message] ''openai/gpt-4o'' = [big_message]"
proof -
  have plain: "\<forall>m \<in> set [big_message]. breakpoints m = 0"
    by (simp add: breakpoints_def big_message_def)
  have claude: "shouldInsertCacheControl ''anthropic/claude-3''"
    by (simp add: shouldInsertCacheControl_def family_claude)
  have gpt: "\<not> shouldInsertCacheControl ''openai/gpt-4o''"
    by (simp add: shouldInsertCacheControl_def family_gpt)
  have el: "eligible (enat 4096) ([big_message] ! 0)"
    by (simp add: eligible_def big_message_def estimateTokens_def)
  show ?thesis
    using cache_breakpoints_within_budget [OF plain, of "''anthropic/claude-3''"]
      cache_breakpoints_within_budget [OF plain, of "''openai/gpt-4o''"]
      plain claude gpt el
    by simp
qed

section \<open>Credential\<close>

lemma lit_append: "lit (a @ b) = lit a @ lit b"
  by (simp add: lit_def)

lemma length_lit: "length (lit s) = length s"
  by (simp add: lit_def)

lemma lower_lit_Bearer: "map lower_ascii (lit ''Bearer '') = lit ''bearer ''"
  by (simp add: lit_def lower_ascii_def)

lemma take_prefix: "length p = n \<Longrightarrow> take (n + m) (p @ x) = p @ take m x"
  by simp

lemma take7_of_take14: "take 7 (take 14 L) = take 7 L"
  by simp

lemma repeats_header:
  "repeats_scheme (lit ''Bearer '' @ clean) =
     (map lower_ascii clean = lit ''bearer'' \<or> starts_with_bearer clean)"
proof -
  have l: "length (lit ''bearer '') = 7" by (simp add: lit_def)
  have a: "lit ''bearer bearer'' = lit ''bearer '' @ lit ''bearer''"
    and b: "lit ''bearer bearer '' = lit ''bearer '' @ lit ''bearer ''"
    by (simp_all add: lit_def)
  have "map lower_ascii (lit ''Bearer '' @ clean) = lit ''bearer '' @ map lower_ascii clean"
    by (simp only: map_append lower_lit_Bearer)
  moreover have "map lower_ascii (take 14 (lit ''Bearer '' @ clean)) =
      lit ''bearer '' @ map lower_ascii (take 7 clean)"
  proof -
    have "take (7 + 7) (lit ''Bearer '' @ clean) = lit ''Bearer '' @ take 7 clean"
      by (rule take_prefix) (simp add: lit_def)
    then have "take 14 (lit ''Bearer '' @ clean) = lit ''Bearer '' @ take 7 clean" by simp
    then show ?thesis by (simp only: map_append lower_lit_Bearer)
  qed
  ultimately show ?thesis
    unfolding repeats_scheme_def starts_with_bearer_def a b by (simp only: same_append_eq)
qed

lemma repeats_clean:
  "(map lower_ascii (if starts_with_bearer k then drop 7 k else k) = lit ''bearer'' \<or>
    starts_with_bearer (if starts_with_bearer k then drop 7 k else k)) =
   (map lower_ascii k = lit ''bearer'' \<or> repeats_scheme k)"
proof (cases "starts_with_bearer k")
  case True
  let ?L = "map lower_ascii k"
  have t: "take 7 ?L = lit ''bearer ''" using True by (simp add: starts_with_bearer_def take_map)
  have a: "lit ''bearer bearer'' = lit ''bearer '' @ lit ''bearer''"
    and b: "lit ''bearer bearer '' = lit ''bearer '' @ lit ''bearer ''"
    by (simp_all add: lit_def)
  have L: "?L = lit ''bearer '' @ drop 7 ?L" using t by (metis append_take_drop_id)
  have "length (take 7 ?L) = 7" using t by (simp add: lit_def)
  then have len: "7 \<le> length ?L" by simp
  have n: "?L \<noteq> lit ''bearer''"
  proof
    assume "?L = lit ''bearer''"
    then have "length ?L = 6" by (simp add: lit_def)
    with len show False by simp
  qed
  have 1: "(?L = lit ''bearer bearer'') = (drop 7 ?L = lit ''bearer'')"
    unfolding a by (subst L) (simp only: same_append_eq)
  have "take (7 + 7) ?L = take 7 ?L @ take 7 (drop 7 ?L)" by (rule take_add)
  then have "take 14 ?L = lit ''bearer '' @ take 7 (drop 7 ?L)" using t by simp
  then have 2: "(take 14 ?L = lit ''bearer bearer '') = (take 7 (drop 7 ?L) = lit ''bearer '')"
    unfolding b by (simp only: same_append_eq)
  show ?thesis using True n 1 2
    by (simp add: repeats_scheme_def starts_with_bearer_def take_map drop_map)
next
  case False
  let ?L = "map lower_ascii k"
  have f: "take 7 ?L \<noteq> lit ''bearer ''" using False by (simp add: starts_with_bearer_def take_map)
  have 1: "?L \<noteq> lit ''bearer bearer''"
  proof
    assume "?L = lit ''bearer bearer''"
    then have "take 7 ?L = lit ''bearer ''" by (simp add: lit_def)
    with f show False by simp
  qed
  have 2: "take 14 ?L \<noteq> lit ''bearer bearer ''"
  proof
    assume "take 14 ?L = lit ''bearer bearer ''"
    then have "take 7 (take 14 ?L) = lit ''bearer ''" by (simp add: lit_def)
    with f show False by simp
  qed
  show ?thesis using False 1 2 by (simp add: repeats_scheme_def take_map)
qed

lemma trim_decomposes:
  "\<exists>l r. s = l @ trim s @ r \<and> (\<forall>x \<in> set l. is_space x) \<and> (\<forall>x \<in> set r. is_space x)"
proof -
  let ?l = "takeWhile is_space s"
  let ?m = "dropWhile is_space s"
  let ?r = "rev (takeWhile is_space (rev ?m))"
  have "rev ?m = takeWhile is_space (rev ?m) @ dropWhile is_space (rev ?m)" by simp
  then have "?m = rev (dropWhile is_space (rev ?m)) @ ?r"
    by (metis rev_append rev_rev_ident)
  then have "s = ?l @ trim s @ ?r"
    unfolding trim_def by (metis takeWhile_dropWhile_id)
  moreover have "\<forall>x \<in> set ?l. is_space x" by (auto dest: set_takeWhileD)
  moreover have "\<forall>x \<in> set ?r. is_space x" by (auto dest: set_takeWhileD)
  ultimately show ?thesis by blast
qed

lemma trim_ends:
  "trim s \<noteq> [] \<Longrightarrow> \<not> is_space (hd (trim s)) \<and> \<not> is_space (last (trim s))"
proof -
  assume ne: "trim s \<noteq> []"
  let ?m = "dropWhile is_space s"
  let ?d = "dropWhile is_space (rev ?m)"
  have d: "?d \<noteq> []" using ne by (simp add: trim_def)
  have "\<not> is_space (hd ?d)" using d hd_dropWhile by blast
  then have last: "\<not> is_space (last (trim s))" using d by (simp add: trim_def last_rev)
  have mne: "?m \<noteq> []"
  proof
    assume "?m = []"
    with d show False by simp
  qed
  then have hm: "\<not> is_space (hd ?m)" using hd_dropWhile by blast
  have "rev ?m = takeWhile is_space (rev ?m) @ ?d" by simp
  then have "?m = rev ?d @ rev (takeWhile is_space (rev ?m))" by (metis rev_append rev_rev_ident)
  then have "hd ?m = hd (rev ?d)" using d by (metis hd_append2 rev_is_Nil_conv)
  with hm have "\<not> is_space (hd (trim s))" by (simp add: trim_def)
  with last show ?thesis by simp
qed



lemma prepareApiKey_clean:
  "apiKey \<noteq> [] \<Longrightarrow> prepareApiKey False apiKey =
     Inr (if starts_with_bearer (trim apiKey) then drop 7 (trim apiKey) else trim apiKey)"
  by (simp add: prepareApiKey_def Let_def)

lemma authorization_direct:
  "authorization (request_headers False a origin k) = Some (lit ''Bearer '' @ k)"
  by (simp add: authorization_def request_headers_def del: append.simps)

lemma authorization_proxy:
  "authorization (request_headers True a origin k) = None"
  by (simp add: authorization_def request_headers_def)

text \<open>
  C10 fails as stated: only one prefix is stripped, and a credential that is the bare
  word and a blank loses the blank to \<open>trim\<close> before the prefix is looked for. The
  credential \<open>Bearer Bearer sk-1\<close> gives the header \<open>Bearer Bearer sk-1\<close>, and the
  credential \<open>Bearer\<close> followed by a blank gives the header \<open>Bearer Bearer\<close>.
\<close>

theorem bearer_repeated_counterexample:
  "prepareApiKey False (lit ''Bearer Bearer sk-1'') = Inr (lit ''Bearer sk-1'') \<and>
   authorization (stream_headers False [] (lit ''Bearer sk-1'')) =
     Some (lit ''Bearer Bearer sk-1'') \<and>
   repeats_scheme (lit ''Bearer Bearer sk-1'') \<and>
   prepareApiKey False (lit ''Bearer '') = Inr (lit ''Bearer'') \<and>
   authorization (stream_headers False [] (lit ''Bearer'')) = Some (lit ''Bearer Bearer'') \<and>
   repeats_scheme (lit ''Bearer Bearer'')"
  by (simp add: prepareApiKey_def trim_def is_space_def starts_with_bearer_def lower_ascii_def
      lit_def authorization_def stream_headers_def request_headers_def repeats_scheme_def)

text \<open>
  C10, as the code has it. Without proxy mode an empty credential makes \<open>streamResponse\<close>
  and \<open>sendMessage\<close> fail with the error "API Key is required when not using proxy
  mode" before any request or callback. A non-empty credential is trimmed of the white
  space and line terminators around it and loses one leading "Bearer " prefix, whatever
  its case; the Authorization header built for the request is "Bearer " followed by the
  result. It repeats the scheme word, that is, it is "Bearer Bearer" or begins with
  "Bearer Bearer" and a blank, in any case of the letters, exactly when the trimmed
  credential is the bare word "Bearer" or itself repeats the word in that way. In proxy
  mode no Authorization header is built.
\<close>

theorem credential_and_authorization:
  "(\<not> use_proxy c \<and> apiKey = [] \<longrightarrow>
      streamResponse c apiKey env = Inl (Error ''API Key is required when not using proxy mode'') \<and>
      sendMessage c apiKey senv =
        ([], Rejected (Error ''API Key is required when not using proxy mode''))) \<and>
   (\<not> use_proxy c \<and> apiKey \<noteq> [] \<longrightarrow>
      (\<exists>l r. apiKey = l @ trim apiKey @ r \<and> (\<forall>x \<in> set l. is_space x) \<and> (\<forall>x \<in> set r. is_space x)) \<and>
      (trim apiKey \<noteq> [] \<longrightarrow> \<not> is_space (hd (trim apiKey)) \<and> \<not> is_space (last (trim apiKey))) \<and>
      (\<exists>clean. prepareApiKey (use_proxy c) apiKey = Inr clean \<and>
         clean = (if starts_with_bearer (trim apiKey) then drop 7 (trim apiKey)
                  else trim apiKey) \<and>
         streamResponse c apiKey env = Inr (session c initial env) \<and>
         sendMessage c apiKey senv = send_loop c 0 None [] senv \<and>
         authorization (stream_headers (use_proxy c) origin clean) = Some (lit ''Bearer '' @ clean) \<and>
         authorization (send_headers (use_proxy c) origin clean) = Some (lit ''Bearer '' @ clean) \<and>
         repeats_scheme (lit ''Bearer '' @ clean) =
           (map lower_ascii (trim apiKey) = lit ''bearer'' \<or> repeats_scheme (trim apiKey)))) \<and>
   (use_proxy c \<longrightarrow>
      prepareApiKey (use_proxy c) apiKey = Inr [] \<and>
      streamResponse c apiKey env = Inr (session c initial env) \<and>
      sendMessage c apiKey senv = send_loop c 0 None [] senv \<and>
      authorization (stream_headers (use_proxy c) origin []) = None \<and>
      authorization (send_headers (use_proxy c) origin []) = None)"
proof (intro conjI impI)
  assume a: "\<not> use_proxy c \<and> apiKey \<noteq> []"
  let ?clean = "if starts_with_bearer (trim apiKey) then drop 7 (trim apiKey) else trim apiKey"
  have p: "prepareApiKey (use_proxy c) apiKey = Inr ?clean"
    using a prepareApiKey_clean [of apiKey] by simp
  have d: "repeats_scheme (lit ''Bearer '' @ ?clean) =
      (map lower_ascii (trim apiKey) = lit ''bearer'' \<or> repeats_scheme (trim apiKey))"
    by (simp only: repeats_header repeats_clean)
  have h: "authorization (stream_headers (use_proxy c) origin ?clean) = Some (lit ''Bearer '' @ ?clean)"
      "authorization (send_headers (use_proxy c) origin ?clean) = Some (lit ''Bearer '' @ ?clean)"
    using a by (simp_all only: stream_headers_def send_headers_def authorization_direct)
  have s: "streamResponse c apiKey env = Inr (session c initial env)"
    using p by (simp add: streamResponse_def)
  have m: "sendMessage c apiKey senv = send_loop c 0 None [] senv"
    using p by (simp add: sendMessage_def)
  show "\<exists>clean. prepareApiKey (use_proxy c) apiKey = Inr clean \<and>
         clean = ?clean \<and>
         streamResponse c apiKey env = Inr (session c initial env) \<and>
         sendMessage c apiKey senv = send_loop c 0 None [] senv \<and>
         authorization (stream_headers (use_proxy c) origin clean) = Some (lit ''Bearer '' @ clean) \<and>
         authorization (send_headers (use_proxy c) origin clean) = Some (lit ''Bearer '' @ clean) \<and>
         repeats_scheme (lit ''Bearer '' @ clean) =
           (map lower_ascii (trim apiKey) = lit ''bearer'' \<or> repeats_scheme (trim apiKey))"
    using p d h s m by blast
  show "\<exists>l r. apiKey = l @ trim apiKey @ r \<and> (\<forall>x \<in> set l. is_space x) \<and> (\<forall>x \<in> set r. is_space x)"
    by (rule trim_decomposes)
next
  assume "trim apiKey \<noteq> []"
  then show "\<not> is_space (hd (trim apiKey))" "\<not> is_space (last (trim apiKey))"
    using trim_ends by blast+
qed (simp_all add: streamResponse_def sendMessage_def prepareApiKey_def stream_headers_def
       send_headers_def authorization_proxy)

theorem credential_and_authorization_witness:
  "prepareApiKey False ([0xA0, 0x20] @ lit ''bearer sk-1'' @ [0x0A, 0xFEFF]) = Inr (lit ''sk-1'') \<and>
   trim ([0xA0, 0x20] @ lit ''bearer sk-1'' @ [0x0A, 0xFEFF]) = lit ''bearer sk-1'' \<and>
   authorization (stream_headers False [] (lit ''sk-1'')) = Some (lit ''Bearer sk-1'') \<and>
   \<not> repeats_scheme (lit ''Bearer sk-1'') \<and>
   streamResponse sample [] [] = Inl (Error ''API Key is required when not using proxy mode'') \<and>
   authorization (stream_headers True [] []) = None"
  using credential_and_authorization [of sample "[0xA0, 0x20] @ lit ''bearer sk-1'' @ [0x0A, 0xFEFF]" "[]" "[]" "[]"]
    credential_and_authorization [of sample "[]" "[]" "[]" "[]"]
    credential_and_authorization [of sample_proxy "[]" "[]" "[]" "[]"]
  by (simp add: sample_def sample_proxy_def prepareApiKey_def trim_def is_space_def
      starts_with_bearer_def lower_ascii_def lit_def authorization_def stream_headers_def
      request_headers_def repeats_scheme_def streamResponse_def)


section \<open>Facts about the decoder\<close>

lemma core_fields [simp]:
  "aborted (core s) = aborted s" "retries (core s) = retries s" "trace (core s) = trace s"
  "stale (core s) = stale s" "eventDataParts (core s) = eventDataParts s"
  "finalUsage (core s) = finalUsage s" "receivedDone (core s) = receivedDone s"
  "done_flag (core s) = done_flag s"
  by (simp_all add: core_def)

lemma core_eqD:
  assumes "core s = core s'"
  shows "aborted s = aborted s'" "retries s = retries s'" "trace s = trace s'"
    "stale s = stale s'" "eventDataParts s = eventDataParts s'"
    "finalUsage s = finalUsage s'" "receivedDone s = receivedDone s'"
    "done_flag s = done_flag s'"
  using assms core_fields by metis+

lemma core_updates [simp]:
  "core (s\<lparr>now := n\<rparr>) = core s" "core (s\<lparr>timer := t\<rparr>) = core s"
  "core (s\<lparr>buffer := b\<rparr>) = core s" "core (resetInactivity s) = core s"
  "core (core s) = core s"
  by (simp_all add: core_def resetInactivity_def)

lemma core_commute:
  "core (emit e t) = emit e (core t)"
  "core (t\<lparr>eventDataParts := x\<rparr>) = (core t)\<lparr>eventDataParts := x\<rparr>"
  "core (t\<lparr>finalUsage := u\<rparr>) = (core t)\<lparr>finalUsage := u\<rparr>"
  "core (t\<lparr>receivedDone := r\<rparr>) = (core t)\<lparr>receivedDone := r\<rparr>"
  "core (t\<lparr>done_flag := d\<rparr>) = (core t)\<lparr>done_flag := d\<rparr>"
  by (simp_all add: core_def emit_def)

lemma core_dispatch: "core (dispatch c d s) = dispatch c d (core s)"
  by (simp add: dispatch_def Let_def core_commute split: option.splits json.splits)

lemma dispatch_frame [simp]:
  "done_flag (dispatch c d s) = done_flag s" "aborted (dispatch c d s) = aborted s"
  "stale (dispatch c d s) = stale s" "eventDataParts (dispatch c d s) = eventDataParts s"
  "now (dispatch c d s) = now s" "timer (dispatch c d s) = timer s"
  "buffer (dispatch c d s) = buffer s" "retries (dispatch c d s) = retries s"
  "receivedDone (dispatch c d s) = receivedDone s"
  by (auto simp: dispatch_def Let_def emit_def split: option.splits json.splits)

lemma resetInactivity_frame [simp]:
  "done_flag (resetInactivity s) = done_flag s" "aborted (resetInactivity s) = aborted s"
  "stale (resetInactivity s) = stale s" "eventDataParts (resetInactivity s) = eventDataParts s"
  "now (resetInactivity s) = now s" "trace (resetInactivity s) = trace s"
  "buffer (resetInactivity s) = buffer s" "retries (resetInactivity s) = retries s"
  "finalUsage (resetInactivity s) = finalUsage s" "receivedDone (resetInactivity s) = receivedDone s"
  by (simp_all add: resetInactivity_def)

lemma handle_line_core:
  "core (fst (handle_line c s line)) = core (fst (handle_line c (core s) line))"
  "snd (handle_line c s line) = snd (handle_line c (core s) line)"
  by (simp_all add: handle_line_def Let_def core_commute core_dispatch)

lemma handle_line_core_eq:
  assumes "core s = core s'"
  shows "core (fst (handle_line c s line)) = core (fst (handle_line c s' line))"
    "snd (handle_line c s line) = snd (handle_line c s' line)"
  using assms handle_line_core by metis+

lemma handle_line_frame [simp]:
  "aborted (fst (handle_line c s line)) = aborted s"
  "stale (fst (handle_line c s line)) = stale s"
  "retries (fst (handle_line c s line)) = retries s"
  "now (fst (handle_line c s line)) = now s"
  "buffer (fst (handle_line c s line)) = buffer s"
  "done_flag (fst (handle_line c s line)) = (done_flag s \<or> snd (handle_line c s line))"
  by (simp_all add: handle_line_def Let_def)

lemma lines_loop_no_line:
  "LF \<notin> set buf \<Longrightarrow> lines_loop c s buf = s\<lparr>buffer := buf\<rparr>"
  by (simp add: lines_loop.simps)

lemma lines_loop_line:
  assumes "LF \<notin> set l"
  shows "lines_loop c s (l @ LF # rest) =
     (if snd (handle_line c s (if endsWith l [CR] then butlast l else l))
      then fst (handle_line c s (if endsWith l [CR] then butlast l else l))
      else lines_loop c (fst (handle_line c s (if endsWith l [CR] then butlast l else l))) rest)"
proof -
  have t: "takeWhile (\<lambda>x. x \<noteq> LF) (l @ LF # rest) = l"
    using assms by (auto simp: takeWhile_tail)
  have d: "dropWhile (\<lambda>x. x \<noteq> LF) (l @ LF # rest) = LF # rest"
    using assms by (auto simp: dropWhile_append3)
  show ?thesis
    by (subst lines_loop.simps) (simp add: t d Let_def split: prod.splits)
qed

lemma split_first_line:
  assumes "LF \<in> set buf"
  obtains l rest where "buf = l @ LF # rest" "LF \<notin> set l"
  using assms split_list_first by metis

lemma lines_loop_core:
  "core s = core s' \<Longrightarrow> core (lines_loop c s buf) = core (lines_loop c s' buf)"
proof (induction "length buf" arbitrary: buf s s' rule: less_induct)
  case less
  show ?case
  proof (cases "LF \<in> set buf")
    case False
    then show ?thesis using less.prems by (simp add: lines_loop_no_line)
  next
    case True
    then obtain l rest where buf: "buf = l @ LF # rest" "LF \<notin> set l"
      by (rule split_first_line)
    let ?line = "if endsWith l [CR] then butlast l else l"
    have h: "core (fst (handle_line c s ?line)) = core (fst (handle_line c s' ?line))"
      "snd (handle_line c s ?line) = snd (handle_line c s' ?line)"
      using handle_line_core_eq [OF less.prems] by blast+
    have "length rest < length buf" using buf by simp
    from less.hyps [OF this h(1)] h show ?thesis
      unfolding buf(1) lines_loop_line [OF buf(2)] by simp
  qed
qed

lemma lines_loop_frame_all:
  "aborted (lines_loop c s buf) = aborted s \<and> stale (lines_loop c s buf) = stale s \<and>
   retries (lines_loop c s buf) = retries s \<and> now (lines_loop c s buf) = now s"
proof (induction "length buf" arbitrary: buf s rule: less_induct)
  case less
  show ?case
  proof (cases "LF \<in> set buf")
    case False
    then show ?thesis by (simp add: lines_loop_no_line)
  next
    case True
    then obtain l rest where buf: "buf = l @ LF # rest" "LF \<notin> set l"
      by (rule split_first_line)
    have "length rest < length buf" using buf by simp
    from less.hyps [OF this] show ?thesis
      unfolding buf(1) lines_loop_line [OF buf(2)] by simp
  qed
qed

lemma lines_loop_frame [simp]:
  "aborted (lines_loop c s buf) = aborted s"
  "stale (lines_loop c s buf) = stale s"
  "retries (lines_loop c s buf) = retries s"
  "now (lines_loop c s buf) = now s"
  using lines_loop_frame_all [of c s buf] by simp_all

lemma lines_loop_buffer:
  "\<not> done_flag (lines_loop c s buf) \<Longrightarrow> LF \<notin> set (buffer (lines_loop c s buf))"
proof (induction "length buf" arbitrary: buf s rule: less_induct)
  case less
  show ?case
  proof (cases "LF \<in> set buf")
    case False
    then show ?thesis by (simp add: lines_loop_no_line)
  next
    case True
    then obtain l rest where buf: "buf = l @ LF # rest" "LF \<notin> set l"
      by (rule split_first_line)
    have "length rest < length buf" using buf by simp
    from less.hyps [OF this] less.prems show ?thesis
      unfolding buf(1) lines_loop_line [OF buf(2)] by (auto split: if_splits)
  qed
qed

lemma lines_loop_append:
  "\<not> done_flag s \<Longrightarrow>
   core (lines_loop c s (a @ b)) = core (more_bytes c (lines_loop c s a) b)"
proof (induction "length a" arbitrary: a s rule: less_induct)
  case less
  show ?case
  proof (cases "LF \<in> set a")
    case False
    have "core (lines_loop c (s\<lparr>buffer := a @ b\<rparr>) (a @ b)) = core (lines_loop c s (a @ b))"
      by (rule lines_loop_core) simp
    then show ?thesis using False less.prems
      by (simp add: lines_loop_no_line more_bytes_def process_chunk_def)
  next
    case True
    then obtain l rest where a: "a = l @ LF # rest" "LF \<notin> set l"
      by (rule split_first_line)
    let ?line = "if endsWith l [CR] then butlast l else l"
    have len: "length rest < length a" using a by simp
    show ?thesis
    proof (cases "snd (handle_line c s ?line)")
      case True
      then show ?thesis using a lines_loop_line [OF a(2), of c s "rest @ b"]
          lines_loop_line [OF a(2), of c s rest]
        by (simp add: more_bytes_def)
    next
      case False
      then have "\<not> done_flag (fst (handle_line c s ?line))" using less.prems by simp
      from less.hyps [OF len this] False show ?thesis
        using a lines_loop_line [OF a(2), of c s "rest @ b"]
          lines_loop_line [OF a(2), of c s rest]
        by simp
    qed
  qed
qed


lemma seen_core: "core s = core s' \<Longrightarrow> seen s = seen s'"
  using core_eqD [of s s'] by (simp add: seen_def)

lemma process_chunk_core:
  assumes "core s = core s'" "buffer s = buffer s'"
  shows "core (process_chunk c s v) = core (process_chunk c s' v)"
proof -
  have "core (lines_loop c (s\<lparr>buffer := buffer s @ v\<rparr>) (buffer s @ v)) =
      core (lines_loop c (s'\<lparr>buffer := buffer s @ v\<rparr>) (buffer s @ v))"
    by (rule lines_loop_core) (simp add: assms(1))
  then show ?thesis by (simp add: process_chunk_def assms(2))
qed

lemma process_chunk_append:
  assumes "\<not> done_flag s"
  shows "core (process_chunk c s (a @ b)) = core (more_bytes c (process_chunk c s a) b)"
proof -
  have "core (process_chunk c s (a @ b)) =
      core (lines_loop c (s\<lparr>buffer := buffer s @ a\<rparr>) ((buffer s @ a) @ b))"
    unfolding process_chunk_def by (simp only: append_assoc) (rule lines_loop_core, simp)
  also have "\<dots> = core (more_bytes c (lines_loop c (s\<lparr>buffer := buffer s @ a\<rparr>) (buffer s @ a)) b)"
    using assms by (intro lines_loop_append) simp
  finally show ?thesis by (simp add: process_chunk_def)
qed

lemma process_chunk_frame [simp]:
  "aborted (process_chunk c s v) = aborted s" "stale (process_chunk c s v) = stale s"
  "retries (process_chunk c s v) = retries s" "now (process_chunk c s v) = now s"
  by (simp_all add: process_chunk_def)

lemma process_chunk_nothing:
  "LF \<notin> set (buffer s) \<Longrightarrow> process_chunk c s [] = s"
  by (simp add: process_chunk_def lines_loop_no_line)

lemma fire_stale_none: "stale s = [] \<Longrightarrow> fire_stale t s = s"
  by (simp add: fire_stale_def)

lemma advance_quiet:
  assumes "stale s = []" "advance dt s = (s1, False)"
  shows "s1 = s\<lparr>now := now s + dt\<rparr>"
  using assms by (auto simp: advance_def Let_def fire_stale_none split: option.splits if_splits)

lemma read_loop_done: "done_flag s \<or> aborted s \<Longrightarrow> read_loop c s rs = (Normal, s)"
  by (cases rs) auto


lemma read_loop_step:
  assumes "\<not> done_flag s" "\<not> aborted s"
  shows "read_loop c s ((dt, ev) # rs) =
     (if snd (advance dt s) then (Throws AbortError, fst (advance dt s))
      else (case ev of
              Chunk v \<Rightarrow> read_loop c (process_chunk c (fst (advance dt s)) v) rs
            | Eof \<Rightarrow> read_loop c ((fst (advance dt s))\<lparr>done_flag := True\<rparr>) rs
            | ReadFails e \<Rightarrow> (Throws (NetworkError e), fst (advance dt s))
            | ReadAborted \<Rightarrow> (Throws AbortError, fst (advance dt s))))"
  using assms by (cases "advance dt s") (auto split: read_event.splits)

lemma read_loop_empty:
  assumes "\<not> done_flag s" "\<not> aborted s"
  shows "fst (read_loop c s []) \<noteq> Normal"
  using assms by (simp add: never_def split: option.splits)

lemma advance_quiet':
  assumes "stale s = []" "\<not> snd (advance dt s)"
  shows "fst (advance dt s) = s\<lparr>now := now s + dt\<rparr>"
  using assms advance_quiet [of s dt "fst (advance dt s)"] by (cases "advance dt s") simp

lemma read_loop_seen:
  "\<not> done_flag s \<Longrightarrow> \<not> aborted s \<Longrightarrow> stale s = [] \<Longrightarrow> LF \<notin> set (buffer s) \<Longrightarrow>
   read_loop c s rs = (Normal, s') \<Longrightarrow> seen s' = seen (process_chunk c s (delivered rs))"
proof (induction rs arbitrary: s)
  case Nil
  then show ?case using read_loop_empty [of s c] by simp
next
  case (Cons r rs)
  obtain dt ev where r: "r = (dt, ev)" by (cases r)
  let ?s1 = "fst (advance dt s)"
  note step = read_loop_step [OF Cons.prems(1,2), of c dt ev rs]
  have run0: "read_loop c s ((dt, ev) # rs) = (Normal, s')" using Cons.prems(5) r by simp
  have nf: "\<not> snd (advance dt s)"
  proof
    assume "snd (advance dt s)"
    with step run0 show False by simp
  qed
  have s1: "?s1 = s\<lparr>now := now s + dt\<rparr>" using advance_quiet' [OF Cons.prems(3) nf] .
  show ?case
  proof (cases ev)
    case (Chunk v)
    let ?s2 = "process_chunk c ?s1 v"
    have run: "read_loop c ?s2 rs = (Normal, s')" using step run0 nf Chunk by simp
    have c2: "core (process_chunk c ?s1 x) = core (process_chunk c s x)" for x
      by (rule process_chunk_core) (simp_all add: s1)
    have nd1: "\<not> done_flag ?s1" using s1 Cons.prems(1) by simp
    have del: "delivered (r # rs) = v @ delivered rs" using r Chunk by simp
    show ?thesis
    proof (cases "done_flag ?s2")
      case True
      then have "s' = ?s2" using run read_loop_done [of ?s2 c rs] by simp
      moreover have "core (process_chunk c ?s1 (v @ delivered rs)) = core ?s2"
        using process_chunk_append [OF nd1, of c v "delivered rs"] True by (simp add: more_bytes_def)
      ultimately have "core s' = core (process_chunk c s (v @ delivered rs))"
        using c2 [of "v @ delivered rs"] by simp
      then show ?thesis unfolding del by (rule seen_core)
    next
      case False
      have "seen s' = seen (process_chunk c ?s2 (delivered rs))"
      proof (rule Cons.IH [OF False _ _ _ run])
        show "\<not> aborted ?s2" using s1 Cons.prems(2) by simp
        show "stale ?s2 = []" using s1 Cons.prems(3) by simp
        show "LF \<notin> set (buffer ?s2)" using False
          unfolding process_chunk_def by (rule lines_loop_buffer)
      qed
      moreover have "core (process_chunk c ?s1 (v @ delivered rs)) = core (process_chunk c ?s2 (delivered rs))"
        using process_chunk_append [OF nd1, of c v "delivered rs"] False by (simp add: more_bytes_def)
      then have "seen (process_chunk c s (v @ delivered rs)) = seen (process_chunk c ?s2 (delivered rs))"
        using c2 [of "v @ delivered rs"] seen_core by metis
      ultimately show ?thesis unfolding del by simp
    qed
  next
    case Eof
    then have "s' = ?s1\<lparr>done_flag := True\<rparr>"
      using step run0 nf read_loop_done [of "?s1\<lparr>done_flag := True\<rparr>" c rs] by simp
    then have "seen s' = seen s" using s1 by (simp add: seen_def)
    moreover have "delivered (r # rs) = []" using r Eof by simp
    ultimately show ?thesis using Cons.prems(4) by (simp add: process_chunk_nothing)
  next
    case (ReadFails e)
    then show ?thesis using step run0 nf by simp
  next
    case ReadAborted
    then show ?thesis using step run0 nf by simp
  qed
qed

lemma chunk_args_append: "chunk_args (xs @ ys) = chunk_args xs @ chunk_args ys"
  by (induction xs rule: chunk_args.induct) simp_all

lemma chunk_text_append: "chunk_text (xs @ ys) = chunk_text xs @ chunk_text ys"
  by (induction xs rule: chunk_text.induct) simp_all

lemma chunk_text_strings: "chunk_text (map JStr (filter (\<lambda>d. d \<noteq> []) ds)) = concat ds"
  by (induction ds) simp_all

lemma endsWith_single: "endsWith s [x] = (s \<noteq> [] \<and> last s = x)"
  by (cases s rule: rev_cases) (auto simp: endsWith_def)

lemma data_line:
  assumes "LF \<notin> set p" "\<not> endsWith p [CR]"
  shows "lines_loop c s ((''data: '' @ p) @ LF # rest) =
     lines_loop c ((resetInactivity s)\<lparr>eventDataParts := eventDataParts s @ [p]\<rparr>) rest"
proof -
  have nl: "LF \<notin> set (''data: '' @ p)" using assms(1) by (simp add: LF_def)
  have cr: "\<not> endsWith (''data: '' @ p) [CR]"
    using assms(2) by (cases "p = []") (simp_all add: endsWith_single CR_def)
  have h: "handle_line c s (''data: '' @ p) =
     ((resetInactivity s)\<lparr>eventDataParts := eventDataParts s @ [p]\<rparr>, False)"
    by (simp add: handle_line_def startsWith_def Let_def)
  show ?thesis unfolding lines_loop_line [OF nl] using cr h by simp
qed

lemma blank_line:
  assumes "eventDataParts s = [p]" "p \<noteq> ''[DONE]''"
  shows "lines_loop c s (LF # rest) =
     lines_loop c (resetInactivity (dispatch c p (s\<lparr>eventDataParts := []\<rparr>))) rest"
proof -
  have h: "handle_line c s [] = (resetInactivity (dispatch c p (s\<lparr>eventDataParts := []\<rparr>)), False)"
    using assms by (simp add: handle_line_def Let_def)
  show ?thesis using lines_loop_line [of "[]" c s rest] h by (simp add: endsWith_def)
qed

lemma event:
  assumes "one_line p" "eventDataParts s = []"
  shows "lines_loop c s (sse_event p @ rest) =
     lines_loop c (resetInactivity (dispatch c p ((resetInactivity s)\<lparr>eventDataParts := []\<rparr>))) rest"
proof -
  from assms(1) have p: "LF \<notin> set p" "\<not> endsWith p [CR]" "p \<noteq> ''[DONE]''"
    by (simp_all add: one_line_def)
  have "sse_event p @ rest = (''data: '' @ p) @ LF # (LF # rest)"
    by (simp add: sse_event_def)
  then have "lines_loop c s (sse_event p @ rest) =
      lines_loop c ((resetInactivity s)\<lparr>eventDataParts := [p]\<rparr>) (LF # rest)"
    using data_line [OF p(1,2), of c s "LF # rest"] assms(2) by simp
  also have "\<dots> = lines_loop c (resetInactivity (dispatch c p
      ((resetInactivity s)\<lparr>eventDataParts := [p], eventDataParts := []\<rparr>))) rest"
    by (rule blank_line) (simp_all add: p(3))
  finally show ?thesis by simp
qed




lemma dispatch_carries:
  assumes "carries c p d"
  shows "chunk_args (trace (dispatch c p s)) =
      chunk_args (trace s) @ (if d = [] then [] else [JStr d])"
    "eventDataParts (dispatch c p s) = eventDataParts s"
proof -
  from assms obtain parsed where p: "parse c p = Some parsed" "parsed \<noteq> JNull"
    "content_delta parsed = Some (JStr d)" "\<not> reasoning_throws c parsed"
    by (auto simp: carries_def split: option.splits json.splits)
  show "chunk_args (trace (dispatch c p s)) =
      chunk_args (trace s) @ (if d = [] then [] else [JStr d])"
    using p by (cases parsed)
      (auto simp: dispatch_def Let_def emit_def chunk_args_append reasoning_throws_def
            split: option.splits)
  show "eventDataParts (dispatch c p s) = eventDataParts s" by simp
qed

lemma events_chunks:
  assumes "list_all (\<lambda>(p, d). one_line p \<and> carries c p d) evs" "eventDataParts s = []"
  shows "chunk_args (trace (lines_loop c s (concat (map (\<lambda>(p, d). sse_event p) evs)))) =
     chunk_args (trace s) @ map JStr (filter (\<lambda>d. d \<noteq> []) (map snd evs))"
  using assms
proof (induction evs arbitrary: s)
  case Nil
  then show ?case by (simp add: lines_loop_no_line)
next
  case (Cons e evs)
  obtain p d where e: "e = (p, d)" by (cases e)
  from Cons.prems(1) e have pd: "one_line p" "carries c p d"
    and rest: "list_all (\<lambda>(p, d). one_line p \<and> carries c p d) evs" by simp_all
  let ?s2 = "resetInactivity (dispatch c p ((resetInactivity s)\<lparr>eventDataParts := []\<rparr>))"
  have s2: "eventDataParts ?s2 = []" by simp
  have tr: "chunk_args (trace ?s2) = chunk_args (trace s) @ (if d = [] then [] else [JStr d])"
    using dispatch_carries(1) [OF pd(2)] by simp
  have "lines_loop c s (concat (map (\<lambda>(p, d). sse_event p) (e # evs))) =
     lines_loop c ?s2 (concat (map (\<lambda>(p, d). sse_event p) evs))"
    using event [OF pd(1) Cons.prems(2)] e by simp
  then show ?case using Cons.IH [OF rest s2] tr e by simp
qed

lemma handle_line_timer:
  "timer (fst (handle_line c s line)) = timer s \<or>
   timer (fst (handle_line c s line)) = Some (now s + inactivityTimeoutMs)"
  by (simp add: handle_line_def Let_def resetInactivity_def)

lemma lines_loop_timer:
  "timer (lines_loop c s buf) = timer s \<or>
   timer (lines_loop c s buf) = Some (now s + inactivityTimeoutMs)"
proof (induction "length buf" arbitrary: buf s rule: less_induct)
  case less
  show ?case
  proof (cases "LF \<in> set buf")
    case False
    then show ?thesis by (simp add: lines_loop_no_line)
  next
    case True
    then obtain l rest where buf: "buf = l @ LF # rest" "LF \<notin> set l"
      by (rule split_first_line)
    let ?line = "if endsWith l [CR] then butlast l else l"
    have "length rest < length buf" using buf by simp
    from less.hyps [OF this, of "fst (handle_line c s ?line)"] handle_line_timer [of c s ?line]
    show ?thesis unfolding buf(1) lines_loop_line [OF buf(2)] by auto
  qed
qed

lemma process_chunk_timer:
  "timer (process_chunk c s v) = timer s \<or>
   timer (process_chunk c s v) = Some (now s + inactivityTimeoutMs)"
  using lines_loop_timer [of c "s\<lparr>buffer := buffer s @ v\<rparr>" "buffer s @ v"]
  by (simp add: process_chunk_def)

lemma advance_in_time:
  assumes "stale s = []" "timer s = None \<or> (\<exists>d. timer s = Some d \<and> now s + dt < d)"
  shows "advance dt s = (s\<lparr>now := now s + dt\<rparr>, False)"
  using assms by (auto simp: advance_def Let_def fire_stale_none)

lemma read_loop_returns:
  "ends_cleanly rs \<Longrightarrow> \<not> aborted s \<Longrightarrow> stale s = [] \<Longrightarrow>
   timer s = None \<or> (\<exists>d. timer s = Some d \<and> now s + sum_list (map fst rs) < d) \<Longrightarrow>
   sum_list (map fst rs) < inactivityTimeoutMs \<Longrightarrow>
   fst (read_loop c s rs) = Normal"
proof (induction rs arbitrary: s)
  case Nil
  then show ?case by simp
next
  case (Cons r rs)
  obtain dt ev where r: "r = (dt, ev)" by (cases r)
  show ?case
  proof (cases "done_flag s")
    case True
    then show ?thesis by (simp add: read_loop_done)
  next
    case False
    have "timer s = None \<or> (\<exists>d. timer s = Some d \<and> now s + dt < d)"
      using Cons.prems(4) r by auto
    then have adv: "advance dt s = (s\<lparr>now := now s + dt\<rparr>, False)"
      using advance_in_time [OF Cons.prems(3)] by simp
    note step = read_loop_step [OF False Cons.prems(2), of c dt ev rs]
    show ?thesis
    proof (cases ev)
      case (Chunk v)
      let ?s1 = "s\<lparr>now := now s + dt\<rparr>"
      let ?s2 = "process_chunk c ?s1 v"
      have "fst (read_loop c ?s2 rs) = Normal"
      proof (rule Cons.IH)
        show "ends_cleanly rs" using Cons.prems(1) r Chunk by simp
        show "\<not> aborted ?s2" using Cons.prems(2) by simp
        show "stale ?s2 = []" using Cons.prems(3) by simp
        show "timer ?s2 = None \<or> (\<exists>d. timer ?s2 = Some d \<and> now ?s2 + sum_list (map fst rs) < d)"
          using process_chunk_timer [of c ?s1 v] Cons.prems(4,5) r
          by (auto simp: inactivityTimeoutMs_def)
        show "sum_list (map fst rs) < inactivityTimeoutMs" using Cons.prems(5) by simp
      qed
      then show ?thesis using step adv Chunk r by simp
    next
      case Eof
      then show ?thesis using step adv r by (simp add: read_loop_done)
    next
      case (ReadFails e)
      then show ?thesis using Cons.prems(1) r by simp
    next
      case ReadAborted
      then show ?thesis using Cons.prems(1) r by simp
    qed
  qed
qed


section \<open>Decoding\<close>

text \<open>
  The decoder does not depend on how the bytes are cut into reads. Take the read loop in
  a state where nothing has been read yet and no timer of an earlier attempt is pending.
  (1) Two lists of reads that deliver the same bytes, however cut into chunks and however
  timed, and that both let the loop end normally, give the same callbacks in the same
  order, the same usage snapshot and the same terminator flag. (2) When the bytes are the
  events of content deltas \<open>d1 .. dn\<close>, the arguments of the \<open>onChunk\<close> calls are the
  non-empty deltas in order, each once, and their concatenation is \<open>d1 + .. + dn\<close>.
  (3) The loop does end normally when the reads deliver chunks and then the end of the
  body within the inactivity interval.
\<close>

lemma reads_cut_anywhere:
  assumes "\<not> done_flag s" and "\<not> aborted s" and "stale s = []" and "buffer s = []"
    and "eventDataParts s = []"
  shows "(delivered rs1 = delivered rs2 \<and> read_loop c s rs1 = (Normal, s1) \<and>
          read_loop c s rs2 = (Normal, s2) \<longrightarrow> seen s1 = seen s2) \<and>
         (list_all (\<lambda>(p, d). one_line p \<and> carries c p d) evs \<and>
          delivered rs = concat (map (\<lambda>(p, d). sse_event p) evs) \<and>
          read_loop c s rs = (Normal, s') \<longrightarrow>
            chunk_args (trace s') =
              chunk_args (trace s) @ map JStr (filter (\<lambda>d. d \<noteq> []) (map snd evs)) \<and>
            chunk_text (chunk_args (trace s')) =
              chunk_text (chunk_args (trace s)) @ concat (map snd evs)) \<and>
         (timer s = None \<and> ends_cleanly rs \<and> sum_list (map fst rs) < inactivityTimeoutMs \<longrightarrow>
            fst (read_loop c s rs) = Normal)"
proof (intro conjI impI)
  have nl: "LF \<notin> set (buffer s)" using assms(4) by simp
  note seen = read_loop_seen [OF assms(1,2,3) nl]
  {
    assume a: "delivered rs1 = delivered rs2 \<and> read_loop c s rs1 = (Normal, s1) \<and>
          read_loop c s rs2 = (Normal, s2)"
    then have "seen s1 = seen (process_chunk c s (delivered rs1))"
      and "seen s2 = seen (process_chunk c s (delivered rs2))"
      using seen by blast+
    with a show "seen s1 = seen s2" by simp
  }
  {
    assume a: "list_all (\<lambda>(p, d). one_line p \<and> carries c p d) evs \<and>
          delivered rs = concat (map (\<lambda>(p, d). sse_event p) evs) \<and>
          read_loop c s rs = (Normal, s')"
    let ?bytes = "concat (map (\<lambda>(p, d). sse_event p) evs)"
    from a have "seen s' = seen (process_chunk c s ?bytes)" using seen [of c rs s'] by simp
    then have "trace s' = trace (lines_loop c (s\<lparr>buffer := ?bytes\<rparr>) ?bytes)"
      using assms(4) by (simp add: seen_def process_chunk_def)
    moreover have "chunk_args (trace (lines_loop c (s\<lparr>buffer := ?bytes\<rparr>) ?bytes)) =
        chunk_args (trace (s\<lparr>buffer := ?bytes\<rparr>)) @
        map JStr (filter (\<lambda>d. d \<noteq> []) (map snd evs))"
      using a assms(5) by (intro events_chunks) simp_all
    ultimately show args: "chunk_args (trace s') =
        chunk_args (trace s) @ map JStr (filter (\<lambda>d. d \<noteq> []) (map snd evs))"
      by simp
    show "chunk_text (chunk_args (trace s')) =
        chunk_text (chunk_args (trace s)) @ concat (map snd evs)"
      unfolding args by (simp only: chunk_text_append chunk_text_strings)
  }
  {
    assume "timer s = None \<and> ends_cleanly rs \<and> sum_list (map fst rs) < inactivityTimeoutMs"
    then show "fst (read_loop c s rs) = Normal"
      using read_loop_returns [of rs s c] assms(2,3) by simp
  }
qed

lemma sample_fields:
  "parse sample = sample_parse" "use_proxy sample = False" "has_onController sample = True"
  "has_onReasoningChunk sample = True" "has_onUsage sample = True"
  by (simp_all add: sample_def)

lemma sample_carries: "carries sample hel ''Hel''" "carries sample lo ''lo''"
  by (simp_all add: carries_def sample_fields sample_parse_def hel_def lo_def delta_json_def
      content_delta_def reasoning_throws_def reasoning_delta_def)

lemma sample_one_line: "one_line hel" "one_line lo"
  by (simp_all add: one_line_def hel_def lo_def LF_def CR_def endsWith_def)

lemma reads_cut_anywhere_example:
  "seen (snd (read_loop sample initial
      [(5, Chunk (take 9 (sse_event hel))), (7, Chunk (drop 9 (sse_event hel) @ sse_event lo)),
       (1, Eof)])) =
   seen (snd (read_loop sample initial [(5, Chunk (sse_event hel @ sse_event lo)), (1, Eof)])) \<and>
   chunk_args (trace (snd (read_loop sample initial
      [(5, Chunk (take 9 (sse_event hel))), (7, Chunk (drop 9 (sse_event hel) @ sse_event lo)),
       (1, Eof)]))) = [JStr ''Hel'', JStr ''lo''] \<and>
   chunk_text (chunk_args (trace (snd (read_loop sample initial
      [(5, Chunk (take 9 (sse_event hel))), (7, Chunk (drop 9 (sse_event hel) @ sse_event lo)),
       (1, Eof)])))) = ''Hello''"
proof -
  let ?rs1 = "[(5, Chunk (take 9 (sse_event hel))),
               (7, Chunk (drop 9 (sse_event hel) @ sse_event lo)), (1::nat, Eof)]"
  let ?rs2 = "[(5, Chunk (sse_event hel @ sse_event lo)), (1::nat, Eof)]"
  let ?evs = "[(hel, ''Hel''), (lo, ''lo'')]"
  have i: "\<not> done_flag initial" "\<not> aborted initial" "stale initial = []"
    "buffer initial = []" "eventDataParts initial = []" "timer initial = None"
    "trace initial = []"
    by (simp_all add: initial_def)
  note main = reads_cut_anywhere [OF i(1-5), of _ _ sample]
  have d: "delivered ?rs1 = delivered ?rs2" by simp
  have e: "delivered ?rs1 = concat (map (\<lambda>(p, d). sse_event p) ?evs)" by simp
  have l: "list_all (\<lambda>(p, d). one_line p \<and> carries sample p d) ?evs"
    by (simp add: sample_carries sample_one_line)
  have n1: "fst (read_loop sample initial ?rs1) = Normal"
    using main [of _ _ _ _ _ ?rs1] i(6) by (simp add: inactivityTimeoutMs_def)
  have n2: "fst (read_loop sample initial ?rs2) = Normal"
    using main [of _ _ _ _ _ ?rs2] i(6) by (simp add: inactivityTimeoutMs_def)
  have r1: "read_loop sample initial ?rs1 = (Normal, snd (read_loop sample initial ?rs1))"
    using n1 by (metis prod.collapse)
  have r2: "read_loop sample initial ?rs2 = (Normal, snd (read_loop sample initial ?rs2))"
    using n2 by (metis prod.collapse)
  from main [of ?rs1 ?rs2 "snd (read_loop sample initial ?rs1)"
      "snd (read_loop sample initial ?rs2)" ?evs ?rs1 "snd (read_loop sample initial ?rs1)"]
    d e l r1 r2 i(7)
  show ?thesis by simp
qed



section \<open>Facts about the session\<close>

lemma follows_same: "trace s' = trace s \<Longrightarrow> aborted s' = aborted s \<Longrightarrow> follows s s'"
  by (simp add: follows_def)

lemma follows_refl: "follows s s"
  by (simp add: follows_same)

lemma follows_trans [trans]: "follows s t \<Longrightarrow> follows t u \<Longrightarrow> follows s u"
  unfolding follows_def by (elim exE conjE, rule_tac x = "xs @ xsa" in exI) auto

lemma calm_follows:
  assumes "calm s" "follows s s'"
  shows "calm s'"
proof -
  from assms(2) obtain xs where xs: "trace s' = trace s @ xs" "Fetch \<notin> set xs"
    "OnError stalled \<in> set xs \<longrightarrow> aborted s'" "aborted s \<longrightarrow> aborted s'"
    unfolding follows_def by blast
  have 1: "\<not> aborted s' \<longrightarrow> OnError stalled \<notin> set (trace s')"
    using assms(1) xs by (auto simp: calm_def)
  have "Fetch \<notin> set (dropWhile (\<lambda>e. e \<noteq> OnError stalled) (trace s @ xs))"
  proof (cases "OnError stalled \<in> set (trace s)")
    case True
    then have "dropWhile (\<lambda>e. e \<noteq> OnError stalled) (trace s @ xs) =
        dropWhile (\<lambda>e. e \<noteq> OnError stalled) (trace s) @ xs"
      by (intro dropWhile_append1) auto
    then show ?thesis using assms(1) xs(2) by (simp add: calm_def retried_after_stall_def)
  next
    case False
    then have "dropWhile (\<lambda>e. e \<noteq> OnError stalled) (trace s @ xs) =
        dropWhile (\<lambda>e. e \<noteq> OnError stalled) xs"
      by (intro dropWhile_append2) auto
    then show ?thesis using xs(2) by (auto dest: set_dropWhileD)
  qed
  with 1 xs(1) show ?thesis by (simp add: calm_def retried_after_stall_def)
qed

lemma follows_emit:
  "e \<noteq> Fetch \<Longrightarrow> e \<noteq> OnError stalled \<Longrightarrow> follows s (emit e s)"
  by (simp add: follows_def emit_def)

lemma follows_on_timeout: "follows s (on_timeout s)"
  by (simp add: follows_def on_timeout_def emit_def)

lemma follows_run_timeouts: "follows s (run_timeouts ds s)"
proof (induction ds arbitrary: s)
  case Nil
  show ?case by (simp add: follows_refl)
next
  case (Cons d ds)
  show ?case using follows_trans [OF follows_on_timeout Cons.IH] by simp
qed

lemma follows_fire_stale: "follows s (fire_stale t s)"
  unfolding fire_stale_def
  by (rule follows_trans [OF _ follows_run_timeouts]) (simp add: follows_same)

lemma follows_expire: "follows s (expire d s)"
proof -
  have "follows s (fire_stale d s)" by (rule follows_fire_stale)
  also have "follows (fire_stale d s) ((fire_stale d s)\<lparr>now := d, timer := None\<rparr>)"
    by (simp add: follows_same)
  also have "follows ((fire_stale d s)\<lparr>now := d, timer := None\<rparr>)
      (on_timeout ((fire_stale d s)\<lparr>now := d, timer := None\<rparr>))"
    by (rule follows_on_timeout)
  finally show ?thesis by (simp add: expire_def)
qed

lemma follows_pass: "follows s ((fire_stale t s)\<lparr>now := t'\<rparr>)"
proof -
  have "follows s (fire_stale t s)" by (rule follows_fire_stale)
  also have "follows (fire_stale t s) ((fire_stale t s)\<lparr>now := t'\<rparr>)"
    by (simp add: follows_same)
  finally show ?thesis .
qed

lemma follows_advance: "follows s (fst (advance dt s))"
  by (auto simp: advance_def Let_def follows_expire follows_pass split: option.splits)

lemma follows_never: "follows s (fst (never s))"
proof -
  have "follows s (s\<lparr>stale := []\<rparr>)" by (simp add: follows_same)
  also have "follows (s\<lparr>stale := []\<rparr>) (run_timeouts (stale s) (s\<lparr>stale := []\<rparr>))"
    by (rule follows_run_timeouts)
  finally show ?thesis by (auto simp: never_def follows_expire split: option.splits)
qed

lemma follows_delay: "follows s (delay ms s)"
proof -
  have "follows s (emit (Delay ms) s)" by (simp add: follows_emit)
  also have "follows (emit (Delay ms) s)
      ((fire_stale (now s + ms) (emit (Delay ms) s))\<lparr>now := now s + ms\<rparr>)"
    by (rule follows_pass)
  finally show ?thesis by (simp add: delay_def)
qed

lemma follows_dispatch: "follows s (dispatch c d s)"
proof -
  have 1: "follows s (emit (OnReasoningChunk r) s)" for r s by (simp add: follows_emit)
  have 2: "follows s (emit (OnChunk r) s)" for r s by (simp add: follows_emit)
  have 3: "follows s t \<Longrightarrow> follows s (t\<lparr>finalUsage := u\<rparr>)" for t u
    by (erule follows_trans) (simp add: follows_same)
  show ?thesis
    unfolding dispatch_def Let_def
    by (auto split: option.splits json.splits
        intro!: 3 follows_refl 1 2 follows_trans [OF 1 2])
qed

lemma follows_handle_line: "follows s (fst (handle_line c s line))"
proof -
  have r: "follows s t \<Longrightarrow> follows s (resetInactivity t)" for t
    by (erule follows_trans) (simp add: follows_same resetInactivity_def)
  have d: "follows s (dispatch c x (s\<lparr>eventDataParts := []\<rparr>))" for x
    by (rule follows_trans [OF _ follows_dispatch]) (simp add: follows_same)
  show ?thesis
    by (auto simp: handle_line_def Let_def follows_same intro!: r d follows_refl)
qed

lemma follows_lines_loop: "follows s (lines_loop c s buf)"
proof (induction "length buf" arbitrary: buf s rule: less_induct)
  case less
  show ?case
  proof (cases "LF \<in> set buf")
    case False
    then show ?thesis by (simp add: lines_loop_no_line follows_same)
  next
    case True
    then obtain l rest where buf: "buf = l @ LF # rest" "LF \<notin> set l"
      by (rule split_first_line)
    let ?line = "if endsWith l [CR] then butlast l else l"
    have "length rest < length buf" using buf by simp
    from less.hyps [OF this, of "fst (handle_line c s ?line)"]
    have "follows s (lines_loop c (fst (handle_line c s ?line)) rest)"
      by (rule follows_trans [OF follows_handle_line])
    then show ?thesis
      unfolding buf(1) lines_loop_line [OF buf(2)] using follows_handle_line [of s c ?line]
      by simp
  qed
qed

lemma follows_process_chunk: "follows s (process_chunk c s v)"
  unfolding process_chunk_def
  by (rule follows_trans [OF _ follows_lines_loop]) (simp add: follows_same)

lemma follows_read_loop: "follows s (snd (read_loop c s rs))"
proof (induction rs arbitrary: s)
  case Nil
  show ?case using follows_never [of s]
    by (cases "never s") (auto simp: follows_refl split: bool.splits)
next
  case (Cons r rs)
  obtain dt ev where r: "r = (dt, ev)" by (cases r)
  show ?case
  proof (cases "done_flag s \<or> aborted s")
    case True
    then show ?thesis by (simp add: read_loop_done follows_refl)
  next
    case False
    then have step: "read_loop c s ((dt, ev) # rs) =
     (if snd (advance dt s) then (Throws AbortError, fst (advance dt s))
      else (case ev of
              Chunk v \<Rightarrow> read_loop c (process_chunk c (fst (advance dt s)) v) rs
            | Eof \<Rightarrow> read_loop c ((fst (advance dt s))\<lparr>done_flag := True\<rparr>) rs
            | ReadFails e \<Rightarrow> (Throws (NetworkError e), fst (advance dt s))
            | ReadAborted \<Rightarrow> (Throws AbortError, fst (advance dt s))))"
      by (intro read_loop_step) simp_all
    let ?s1 = "fst (advance dt s)"
    have a: "follows s ?s1" by (rule follows_advance)
    have c: "follows s (snd (read_loop c (process_chunk c ?s1 v) rs))" for v
      by (rule follows_trans [OF a]) (rule follows_trans [OF follows_process_chunk Cons.IH])
    have e: "follows s (snd (read_loop c (?s1\<lparr>done_flag := True\<rparr>) rs))"
      by (rule follows_trans [OF a]) (simp add: read_loop_done follows_same)
    show ?thesis unfolding r step using a c e by (cases ev) simp_all
  qed
qed

lemma follows_catch_block:
  assumes "err \<noteq> stalled"
  shows "follows s (snd (catch_block err s))"
proof -
  let ?t = "case timer s of None \<Rightarrow> s | Some d \<Rightarrow> s\<lparr>stale := stale s @ [d], timer := None\<rparr>"
  have f: "follows s ?t" by (simp add: follows_same split: option.splits)
  show ?thesis
  proof (cases "aborted ?t")
    case True
    then show ?thesis using f by (simp add: catch_block_def)
  next
    case False
    show ?thesis
    proof (cases "retries ?t \<ge> MAX_RETRIES")
      case True
      have "follows ?t (emit (OnError err) ?t)" by (simp add: follows_emit assms)
      with f have "follows s (emit (OnError err) ?t)" by (rule follows_trans)
      then show ?thesis using False True by (simp add: catch_block_def)
    next
      case nr: False
      let ?s1 = "?t\<lparr>retries := retries ?t + 1\<rparr>"
      have "follows ?t ?s1" by (simp add: follows_same)
      also have "follows ?s1 (delay (RETRY_DELAY * retries ?s1) ?s1)" by (rule follows_delay)
      finally have "follows s (delay (RETRY_DELAY * retries ?s1) ?s1)"
        using f follows_trans by blast
      then show ?thesis using False nr by (simp add: catch_block_def Let_def)
    qed
  qed
qed


lemma follows_complete: "follows s (complete c s)"
proof -
  let ?s = "s\<lparr>timer := None\<rparr>"
  let ?s1 = "case finalUsage ?s of None \<Rightarrow> ?s
             | Some u \<Rightarrow> if has_onUsage c then emit (OnUsage u) ?s else ?s"
  have "follows s ?s" by (simp add: follows_same)
  also have "follows ?s ?s1" by (simp add: follows_refl follows_emit split: option.splits)
  also have "follows ?s1 (emit OnComplete ?s1)" by (simp add: follows_emit)
  finally show ?thesis by (simp add: complete_def Let_def)
qed

lemma stalled_is_none_of:
  "AbortError \<noteq> stalled" "NetworkError e \<noteq> stalled" "handleApiError c st t b \<noteq> stalled"
  "Error ''Response body is null'' \<noteq> stalled"
  by (simp_all add: stalled_def handleApiError_def Let_def split: option.splits)

lemma read_loop_throws:
  "read_loop c s rs = (Throws err, s') \<Longrightarrow> err \<noteq> stalled"
proof (induction rs arbitrary: s)
  case Nil
  then show ?case
    by (cases "never s") (auto simp: stalled_def split: if_splits bool.splits)
next
  case (Cons r rs)
  obtain dt ev where r: "r = (dt, ev)" by (cases r)
  show ?case
  proof (cases "done_flag s \<or> aborted s")
    case True
    then show ?thesis using Cons.prems by (simp add: read_loop_done)
  next
    case False
    then have "read_loop c s ((dt, ev) # rs) =
     (if snd (advance dt s) then (Throws AbortError, fst (advance dt s))
      else (case ev of
              Chunk v \<Rightarrow> read_loop c (process_chunk c (fst (advance dt s)) v) rs
            | Eof \<Rightarrow> read_loop c ((fst (advance dt s))\<lparr>done_flag := True\<rparr>) rs
            | ReadFails e \<Rightarrow> (Throws (NetworkError e), fst (advance dt s))
            | ReadAborted \<Rightarrow> (Throws AbortError, fst (advance dt s))))"
      by (intro read_loop_step) simp_all
    then show ?thesis using Cons.prems Cons.IH r
      by (cases ev) (auto simp: stalled_def read_loop_done split: if_splits)
  qed
qed

lemma follows_stream_body: "follows s (snd (stream_body c s reads))"
proof -
  let ?s0 = "s\<lparr>buffer := [], done_flag := False, receivedDone := False,
               finalUsage := None, eventDataParts := []\<rparr>"
  obtain out s6 where rl: "read_loop c ?s0 reads = (out, s6)" by (cases "read_loop c ?s0 reads")
  have "follows s ?s0" by (simp add: follows_same)
  also have "follows ?s0 s6" using follows_read_loop [of ?s0 c reads] rl by simp
  finally have f6: "follows s s6" .
  show ?thesis
  proof (cases out)
    case Normal
    then show ?thesis using rl follows_trans [OF f6 follows_complete]
      by (simp add: stream_body_def)
  next
    case (Throws err)
    then have "err \<noteq> stalled" using rl read_loop_throws by blast
    then have "follows (s6\<lparr>timer := None\<rparr>) (snd (catch_block err (s6\<lparr>timer := None\<rparr>)))"
      by (rule follows_catch_block)
    moreover have "follows s (s6\<lparr>timer := None\<rparr>)"
      by (rule follows_trans [OF f6]) (simp add: follows_same)
    ultimately have "follows s (snd (catch_block err (s6\<lparr>timer := None\<rparr>)))"
      using follows_trans by blast
    then show ?thesis using rl Throws by (simp add: stream_body_def)
  next
    case Hangs
    then show ?thesis using rl f6 by (simp add: stream_body_def)
  qed
qed

lemma follows_on_response: "follows s (snd (on_response c s resp))"
proof -
  obtain status statusText tx body where resp: "resp = Response status statusText tx body"
    by (cases resp)
  let ?s5 = "s\<lparr>timer := None\<rparr>"
  have 5: "follows s ?s5" by (simp add: follows_same)
  have c: "err \<noteq> stalled \<Longrightarrow> follows s (snd (catch_block err ?s5))" for err
    by (rule follows_trans [OF 5]) (rule follows_catch_block)
  have b: "follows s (snd (stream_body c ?s5 reads))" for reads
    by (rule follows_trans [OF 5]) (rule follows_stream_body)
  show ?thesis unfolding resp on_response_def
    using 5 c b by (auto simp: Let_def stalled_is_none_of split: option.splits)
qed

lemma calm_attempt:
  assumes "\<not> aborted s" "calm s"
  shows "calm (snd (attempt c s env))"
proof -
  let ?s1 = "if has_onController c then emit (OnController (retries s)) s else s"
  let ?s3 = "emit Fetch (resetInactivity ?s1)"
  have no: "OnError stalled \<notin> set (trace s)" using assms by (simp add: calm_def)
  have no3: "OnError stalled \<notin> set (trace ?s3)"
    using no by (simp add: emit_def resetInactivity_def)
  then have "\<forall>e \<in> set (trace ?s3). e \<noteq> OnError stalled" by blast
  then have "dropWhile (\<lambda>e. e \<noteq> OnError stalled) (trace ?s3) = []"
    by (simp only: dropWhile_eq_Nil_conv)
  then have calm3: "calm ?s3" using no3
    by (simp only: calm_def retried_after_stall_def) simp
  have c: "err \<noteq> stalled \<Longrightarrow> follows ?s3 t \<Longrightarrow> follows ?s3 (snd (catch_block err t))" for err t
    using follows_catch_block follows_trans by blast
  have r: "follows ?s3 t \<Longrightarrow> follows ?s3 (snd (on_response c t resp))" for t resp
    using follows_on_response follows_trans by blast
  have "follows ?s3 (snd (attempt c s env))"
  proof (cases env)
    case None
    then show ?thesis using follows_never [of ?s3] c [of AbortError "fst (never ?s3)"]
      by (cases "never ?s3") (auto simp: attempt_def Let_def stalled_is_none_of split: bool.splits)
  next
    case (Some e)
    obtain dt ev where e: "e = (dt, ev)" by (cases e)
    have a: "follows ?s3 (fst (advance dt ?s3))" by (rule follows_advance)
    show ?thesis
      using Some e a c [of _ "fst (advance dt ?s3)"] r [of "fst (advance dt ?s3)"]
      by (cases "advance dt ?s3"; cases ev)
         (auto simp: attempt_def Let_def stalled_is_none_of split: bool.splits)
  qed
  with calm3 show ?thesis by (rule calm_follows)
qed

lemma calm_session: "calm s \<Longrightarrow> calm (snd (session c s env))"
proof (induction env arbitrary: s)
  case Nil
  then show ?case using calm_attempt [of s c None] by simp
next
  case (Cons e env)
  show ?case
  proof (cases "retries s \<le> MAX_RETRIES \<and> \<not> aborted s")
    case False
    then show ?thesis using Cons.prems by auto
  next
    case True
    then have "calm (snd (attempt c s (Some e)))" using Cons.prems calm_attempt by blast
    then show ?thesis using True Cons.IH [of "snd (attempt c s (Some e))"]
      by (cases "attempt c s (Some e)") (auto split: step.splits)
  qed
qed

lemma calm_initial: "calm initial"
  by (simp add: calm_def retried_after_stall_def initial_def)

lemma streamResponse_runs:
  "apiKey \<noteq> [] \<or> use_proxy c \<Longrightarrow> streamResponse c apiKey env = Inr (session c initial env)"
  by (auto simp: streamResponse_def prepareApiKey_def Let_def)

lemma session_unanswered:
  assumes "unanswered env"
  shows "fst (session c initial env) = Return"
    "trace (snd (session c initial env)) = handed c 0 @ [Fetch, OnError stalled]"
proof -
  have "fst (session c initial env) = Return \<and>
    trace (snd (session c initial env)) = handed c 0 @ [Fetch, OnError stalled]"
  proof (cases env)
    case Nil
    then show ?thesis
      by (simp add: attempt_def never_def expire_def fire_stale_def on_timeout_def emit_def
          resetInactivity_def catch_block_def initial_def MAX_RETRIES_def handed_def Let_def)
  next
    case (Cons e tl)
    obtain dt ev where e: "e = (dt, ev)" by (cases e)
    have "inactivityTimeoutMs \<le> dt" using assms Cons e by (simp add: unanswered_def)
    then show ?thesis using Cons e
      by (simp add: attempt_def advance_def expire_def fire_stale_def on_timeout_def emit_def
          resetInactivity_def catch_block_def initial_def MAX_RETRIES_def handed_def Let_def)
  qed
  then show "fst (session c initial env) = Return"
    "trace (snd (session c initial env)) = handed c 0 @ [Fetch, OnError stalled]" by simp_all
qed

lemma read_loop_silent:
  assumes "\<not> done_flag s" "\<not> aborted s" "stale s = []" "timer s = Some d" "silent d s rs"
  shows "read_loop c s rs = (Throws AbortError, on_timeout (s\<lparr>now := d, timer := None\<rparr>))"
proof (cases rs)
  case Nil
  then show ?thesis using assms
    by (simp add: never_def expire_def fire_stale_none)
next
  case (Cons r tl)
  obtain dt ev where r: "r = (dt, ev)" by (cases r)
  have "d \<le> now s + dt" using assms(5) Cons r by (simp add: silent_def)
  then have "advance dt s = (on_timeout (s\<lparr>now := d, timer := None\<rparr>), True)"
    using assms(3,4) by (simp add: advance_def expire_def fire_stale_none)
  then show ?thesis using assms(1,2) Cons r by simp
qed

lemma catch_after_timeout:
  "timer s = None \<Longrightarrow> catch_block err (on_timeout s) = (Return, on_timeout s)"
  by (simp add: catch_block_def on_timeout_def emit_def)

lemma handle_line_rearms:
  assumes "line = [] \<or> startsWith line '':'' \<or> startsWith line ''data:''"
  shows "snd (handle_line c s line) \<or>
         timer (fst (handle_line c s line)) = Some (now s + inactivityTimeoutMs)"
  using assms by (auto simp: handle_line_def Let_def resetInactivity_def)

lemmas session_defs = streamResponse_def attempt_def on_response_def stream_body_def advance_def never_def expire_def
  fire_stale_def on_timeout_def emit_def resetInactivity_def inactivityTimeoutMs_def
  catch_block_def delay_def complete_def initial_def MAX_RETRIES_def RETRY_DELAY_def
  in_the_end_def effects_def effects_in_the_end_def

lemmas decode_defs = process_chunk_def lines_loop.simps handle_line_def dispatch_def
  content_delta_def reasoning_delta_def startsWith_def endsWith_def LF_def CR_def
  sse_event_def hel_def lo_def sample_parse_def delta_json_def

lemma sample_key: "prepareApiKey False (lit ''sk-1'') = Inr (lit ''sk-1'')"
  by (simp add: prepareApiKey_def trim_def is_space_def starts_with_bearer_def lower_ascii_def
      lit_def)

section \<open>Timers left behind\<close>

text \<open>
  C1 does not hold of the code. A timer armed before a \<open>fetch\<close> that is rejected is never
  cleared, and it sets the flag \<open>aborted\<close> that all attempts share. Here the first
  request is rejected after 100 ms and the second is answered by a healthy body that
  carries the deltas \<open>Hel\<close>, \<open>lo\<close>, \<open>lo\<close> and then ends. The timer of the first attempt
  runs 45 s after the start, while the body is being read: the stall error is given to
  \<open>onError\<close>, the read loop stops after the next read, the third delta is never handed
  to \<open>onChunk\<close>, and \<open>onComplete\<close> is called. The concatenation of the \<open>onChunk\<close>
  arguments is \<open>Hello\<close>, not \<open>Hellolo\<close>. The same body, when no request was rejected
  before, is handed on in full.
\<close>

theorem stale_timer_loses_deltas:
  "effects (streamResponse sample (lit ''sk-1'')
     [(100, FetchFails ''Failed to fetch''),
      (100, Responds (Response 200 ''OK'' []
         (Some [(42800, Chunk (sse_event hel)), (2000, Chunk (sse_event lo)),
                (1000, Chunk (sse_event lo)), (1000, Eof)])))]) =
     [OnController 0, Fetch, Delay 1000, OnController 1, Fetch, OnChunk (JStr ''Hel''),
      OnError stalled, OnChunk (JStr ''lo''), OnComplete] \<and>
   chunk_text (chunk_args (effects (streamResponse sample (lit ''sk-1'')
     [(100, FetchFails ''Failed to fetch''),
      (100, Responds (Response 200 ''OK'' []
         (Some [(42800, Chunk (sse_event hel)), (2000, Chunk (sse_event lo)),
                (1000, Chunk (sse_event lo)), (1000, Eof)])))]))) = ''Hello'' \<and>
   chunk_text (chunk_args (effects (streamResponse sample (lit ''sk-1'')
     [(100, Responds (Response 200 ''OK'' []
         (Some [(42800, Chunk (sse_event hel)), (2000, Chunk (sse_event lo)),
                (1000, Chunk (sse_event lo)), (1000, Eof)])))]))) = ''Hellolo''"
proof -
  have 1: "effects (streamResponse sample (lit ''sk-1'')
     [(100, FetchFails ''Failed to fetch''),
      (100, Responds (Response 200 ''OK'' []
         (Some [(42800, Chunk (sse_event hel)), (2000, Chunk (sse_event lo)),
                (1000, Chunk (sse_event lo)), (1000, Eof)])))]) =
     [OnController 0, Fetch, Delay 1000, OnController 1, Fetch, OnChunk (JStr ''Hel''),
      OnError stalled, OnChunk (JStr ''lo''), OnComplete]"
    by (simp add: session_defs sample_key sample_fields decode_defs)
  have 2: "effects (streamResponse sample (lit ''sk-1'')
     [(100, Responds (Response 200 ''OK'' []
         (Some [(42800, Chunk (sse_event hel)), (2000, Chunk (sse_event lo)),
                (1000, Chunk (sse_event lo)), (1000, Eof)])))]) =
     [OnController 0, Fetch, OnChunk (JStr ''Hel''), OnChunk (JStr ''lo''),
      OnChunk (JStr ''lo''), OnComplete]"
    by (simp add: session_defs sample_key sample_fields decode_defs)
  show ?thesis by (simp add: 1 2)
qed

text \<open>
  C2 does not hold of the code: \<open>onComplete\<close> is also called when the read loop is left
  because a timer of an earlier attempt has set \<open>aborted\<close>. Here the first request is
  rejected, and the body of the second delivers two events and then stays open: no
  terminator has been decoded and the body has not ended, the stall error has been given
  to \<open>onError\<close>, and \<open>onComplete\<close> follows it.
\<close>

theorem stale_timer_completes_unfinished_stream:
  "streamResponse sample (lit ''sk-1'')
     [(100, FetchFails ''Failed to fetch''),
      (100, Responds (Response 200 ''OK'' []
         (Some [(43000, Chunk (sse_event hel)), (1500, Chunk (sse_event lo))])))] =
   Inr (Return, initial\<lparr>now := 45700, aborted := True, retries := 1,
     trace := [OnController 0, Fetch, Delay 1000, OnController 1, Fetch, OnChunk (JStr ''Hel''),
               OnError stalled, OnChunk (JStr ''lo''), OnComplete],
     receivedDone := False, done_flag := False\<rparr>)"
  by (simp add: session_defs sample_key sample_fields decode_defs)

text \<open>
  C6 does not hold of the code. Three requests in a row are rejected: the delays are
  1000 ms and 2000 ms, and when the function returns \<open>onError\<close> has been called once,
  with the network error. But the three timers armed before the requests are still
  pending, and each gives the stall error to \<open>onError\<close> when it runs: four calls in the
  end.
\<close>

theorem three_fetch_failures_four_errors:
  "effects (streamResponse sample (lit ''sk-1'')
     [(10, FetchFails ''Failed to fetch''), (10, FetchFails ''Failed to fetch''),
      (10, FetchFails ''Failed to fetch'')]) =
     [OnController 0, Fetch, Delay 1000, OnController 1, Fetch, Delay 2000, OnController 2,
      Fetch, OnError (NetworkError ''Failed to fetch'')] \<and>
   errors (effects_in_the_end (streamResponse sample (lit ''sk-1'')
     [(10, FetchFails ''Failed to fetch''), (10, FetchFails ''Failed to fetch''),
      (10, FetchFails ''Failed to fetch'')])) =
     [NetworkError ''Failed to fetch'', stalled, stalled, stalled]"
  by (simp add: session_defs sample_key sample_fields errors_def)

section \<open>Cancellation\<close>

text \<open>
  C3 does not hold of the code. The caller aborts the controller it was handed while the
  body is being read, after the first delta. The abort does not set \<open>aborted\<close>: the
  \<open>catch\<close> block takes the rejected read for a failure, waits 1000 ms and issues the
  request again, and the second attempt hands a new controller to \<open>onController\<close>,
  a delta to \<open>onChunk\<close>, and calls \<open>onComplete\<close>. An abort while the request itself is
  pending is retried in the same way.
\<close>

theorem abort_by_caller_is_retried:
  "effects (streamResponse sample (lit ''sk-1'')
     [(10, Responds (Response 200 ''OK'' [] (Some [(5, Chunk (sse_event hel)), (5, ReadAborted)]))),
      (10, Responds (Response 200 ''OK'' []
         (Some [(5, Chunk (sse_event lo @ sse_event ''[DONE]''))])))]) =
     [OnController 0, Fetch, OnChunk (JStr ''Hel''), Delay 1000, OnController 1, Fetch,
      OnChunk (JStr ''lo''), OnComplete] \<and>
   effects (streamResponse sample (lit ''sk-1'')
     [(10, FetchAborted),
      (10, Responds (Response 200 ''OK'' []
         (Some [(5, Chunk (sse_event lo @ sse_event ''[DONE]''))])))]) =
     [OnController 0, Fetch, Delay 1000, OnController 1, Fetch, OnChunk (JStr ''lo''),
      OnComplete]"
  by (simp add: session_defs sample_key sample_fields decode_defs)

section \<open>Stalls\<close>

text \<open>
  C5 fails as stated: a stall is not retried. When the first request gets no answer for
  45 seconds, the watchdog gives the stall error to \<open>onError\<close> and the session returns:
  one request has been issued, and the answer scripted for a second one is never asked
  for. And once a response has come, the timer is cleared and not armed again before a
  line is read: when the body delivers nothing, the session waits for ever and no error
  is reported.
\<close>

theorem stall_is_not_retried_counterexample:
  "effects (streamResponse sample (lit ''sk-1'')
     [(50000, Responds (Response 200 ''OK'' [] (Some [(5, Chunk (sse_event hel)), (5, Eof)]))),
      (10, Responds (Response 200 ''OK'' [] (Some [(5, Chunk (sse_event hel)), (5, Eof)])))]) =
     [OnController 0, Fetch, OnError stalled] \<and>
   requests (effects (streamResponse sample (lit ''sk-1'')
     [(50000, Responds (Response 200 ''OK'' [] (Some [(5, Chunk (sse_event hel)), (5, Eof)]))),
      (10, Responds (Response 200 ''OK'' [] (Some [(5, Chunk (sse_event hel)), (5, Eof)])))])) = 1 \<and>
   streamResponse sample (lit ''sk-1'') [(10, Responds (Response 200 ''OK'' [] (Some [])))] =
     Inr (Hang, initial\<lparr>now := 10, trace := [OnController 0, Fetch]\<rparr>)"
  by (simp add: session_defs sample_key sample_fields requests_def)

text \<open>
  C5, as the code has it. (1) A stall is never retried: in no run does a request follow
  the stall error given to \<open>onError\<close>. (2) A first request that gets no answer within
  the inactivity interval ends the session: one request, then the stall error, and the
  function returns. (3) In the read loop, with the inactivity timer pending and no stale
  timer, a read that does not complete before the deadline is cut by the timer: the
  stall error is given to \<open>onError\<close> at the deadline, \<open>aborted\<close> is set, and the
  \<open>catch\<close> block returns without a retry and without a second error. (4) A blank line,
  a comment line and a data line each set the timer anew, unless the line ends the
  stream.
\<close>

theorem stall_ends_the_session:
  assumes "apiKey \<noteq> [] \<or> use_proxy c"
  shows "\<not> retried_after_stall (effects (streamResponse c apiKey env)) \<and>
         (unanswered env \<longrightarrow>
            returned (streamResponse c apiKey env) \<and>
            effects (streamResponse c apiKey env) = handed c 0 @ [Fetch, OnError stalled]) \<and>
         (\<not> done_flag s \<and> \<not> aborted s \<and> stale s = [] \<and> timer s = Some d \<and> silent d s rs \<longrightarrow>
            read_loop c s rs = (Throws AbortError, on_timeout (s\<lparr>now := d, timer := None\<rparr>)) \<and>
            catch_block AbortError (on_timeout (s\<lparr>now := d, timer := None\<rparr>)) =
              (Return, on_timeout (s\<lparr>now := d, timer := None\<rparr>))) \<and>
         (line = [] \<or> startsWith line '':'' \<or> startsWith line ''data:'' \<longrightarrow>
            snd (handle_line c s line) \<or>
            timer (fst (handle_line c s line)) = Some (now s + inactivityTimeoutMs))"
proof (intro conjI impI)
  note run = streamResponse_runs [OF assms, of env]
  have "calm (snd (session c initial env))" using calm_initial by (rule calm_session)
  then show "\<not> retried_after_stall (effects (streamResponse c apiKey env))"
    unfolding run by (cases "session c initial env") (simp add: effects_def calm_def)
  {
    assume u: "unanswered env"
    show "returned (streamResponse c apiKey env)"
      unfolding run using session_unanswered(1) [OF u, of c]
      by (cases "session c initial env") (simp add: returned_def)
    show "effects (streamResponse c apiKey env) = handed c 0 @ [Fetch, OnError stalled]"
      unfolding run using session_unanswered(2) [OF u, of c]
      by (cases "session c initial env") (simp add: effects_def)
  }
  {
    assume a: "\<not> done_flag s \<and> \<not> aborted s \<and> stale s = [] \<and> timer s = Some d \<and> silent d s rs"
    then show "read_loop c s rs = (Throws AbortError, on_timeout (s\<lparr>now := d, timer := None\<rparr>))"
      by (intro read_loop_silent) simp_all
    show "catch_block AbortError (on_timeout (s\<lparr>now := d, timer := None\<rparr>)) =
              (Return, on_timeout (s\<lparr>now := d, timer := None\<rparr>))"
      by (rule catch_after_timeout) simp
  }
  {
    assume "line = [] \<or> startsWith line '':'' \<or> startsWith line ''data:''"
    then show "snd (handle_line c s line) \<or>
            timer (fst (handle_line c s line)) = Some (now s + inactivityTimeoutMs)"
      by (rule handle_line_rearms)
  }
qed

theorem stall_ends_the_session_witness:
  "unanswered [] \<and>
   returned (streamResponse sample (lit ''sk-1'') []) \<and>
   effects (streamResponse sample (lit ''sk-1'') []) = [OnController 0, Fetch, OnError stalled] \<and>
   silent 50000 (initial\<lparr>now := 5000, timer := Some 50000\<rparr>) [(45000, Chunk (sse_event hel))] \<and>
   fst (read_loop sample (initial\<lparr>now := 5000, timer := Some 50000\<rparr>)
          [(45000, Chunk (sse_event hel))]) = Throws AbortError \<and>
   trace (snd (read_loop sample (initial\<lparr>now := 5000, timer := Some 50000\<rparr>)
          [(45000, Chunk (sse_event hel))])) = [OnError stalled] \<and>
   timer (fst (handle_line sample initial '': ping'')) = Some 45000"
proof -
  let ?s = "initial\<lparr>now := 5000, timer := Some 50000\<rparr>"
  have k: "lit ''sk-1'' \<noteq> [] \<or> use_proxy sample" by (simp add: lit_def)
  have u: "unanswered []" by (simp add: unanswered_def)
  have s: "\<not> done_flag ?s" "\<not> aborted ?s" "stale ?s = []" "timer ?s = Some 50000"
    "silent 50000 ?s [(45000, Chunk (sse_event hel))]" "now initial = 0" "trace ?s = []"
    by (simp_all add: initial_def silent_def)
  have l: "startsWith '': ping'' '':''" "\<not> snd (handle_line sample initial '': ping'')"
    by (simp_all add: startsWith_def handle_line_def)
  from stall_ends_the_session [OF k, of "[]" ?s 50000 "[(45000, Chunk (sse_event hel))]" "'': ping''"]
    stall_ends_the_session [OF k, of "[]" initial 50000 "[]" "'': ping''"]
    u s l
  show ?thesis
    by (simp add: handed_def sample_fields on_timeout_def emit_def inactivityTimeoutMs_def)
qed


section \<open>Error responses\<close>

text \<open>
  C4 fails as stated: a response with status 401 is retried like any other failure.
  Three requests are issued, 1000 ms and 2000 ms apart, before the authentication error
  is given to \<open>onError\<close>.
\<close>

theorem unauthorized_is_retried_counterexample:
  "requests (effects (streamResponse sample (lit ''sk-1'')
     [(10, Responds (Response 401 ''Unauthorized'' [] None)),
      (10, Responds (Response 401 ''Unauthorized'' [] None)),
      (10, Responds (Response 401 ''Unauthorized'' [] None))])) = 3 \<and>
   effects (streamResponse sample (lit ''sk-1'')
     [(10, Responds (Response 401 ''Unauthorized'' [] None)),
      (10, Responds (Response 401 ''Unauthorized'' [] None)),
      (10, Responds (Response 401 ''Unauthorized'' [] None))]) =
     [OnController 0, Fetch, Delay 1000, OnController 1, Fetch, Delay 2000, OnController 2,
      Fetch, OnError (Error ''Authentication failed: Invalid API key.'')]"
  by (simp add: session_defs sample_key sample_fields requests_def handleApiError_def)

text \<open>
  C4, as the code has it. A response with status 401 makes the attempt fail with the
  error "Authentication failed: Invalid API key.", one with status 429 with "Rate limit
  exceeded. Please try again later.", and one with any other status outside 200..299 with
  the message the server gave in a body that parses (with a \<open>TypeError\<close> if that message
  does not convert to a string), or else with the status and the status text. Such a
  failure is retried like any other: when three requests in a row
  are answered that way in time, the session issues the three of them, waiting 1000 ms
  and then 2000 ms in between, gives the error of the third to \<open>onError\<close>, once, and
  returns with no timer pending.
\<close>

theorem http_errors_surface_after_the_retries:
  assumes "apiKey \<noteq> [] \<or> use_proxy c"
    and "\<not> (200 \<le> st1 \<and> st1 \<le> 299)" and "\<not> (200 \<le> st2 \<and> st2 \<le> 299)"
    and "\<not> (200 \<le> st3 \<and> st3 \<le> 299)"
    and "dt1 < inactivityTimeoutMs" and "dt2 < inactivityTimeoutMs"
    and "dt3 < inactivityTimeoutMs"
  shows "handleApiError c 401 t b = Error ''Authentication failed: Invalid API key.'' \<and>
         handleApiError c 429 t b = Error ''Rate limit exceeded. Please try again later.'' \<and>
         (st \<noteq> 401 \<and> st \<noteq> 429 \<longrightarrow>
            handleApiError c st t b =
              (case server_message c b of
                 Some m \<Rightarrow> if throws_on_String m then TypeError else ErrorOf m
               | None \<Rightarrow> ErrorStatus st t)) \<and>
         returned (streamResponse c apiKey
            ((dt1, Responds (Response st1 t1 b1 r1)) # (dt2, Responds (Response st2 t2 b2 r2)) #
             (dt3, Responds (Response st3 t3 b3 r3)) # rest)) \<and>
         effects (streamResponse c apiKey
            ((dt1, Responds (Response st1 t1 b1 r1)) # (dt2, Responds (Response st2 t2 b2 r2)) #
             (dt3, Responds (Response st3 t3 b3 r3)) # rest)) =
           handed c 0 @ [Fetch, Delay 1000] @ handed c 1 @ [Fetch, Delay 2000] @ handed c 2 @
           [Fetch, OnError (handleApiError c st3 t3 b3)] \<and>
         effects_in_the_end (streamResponse c apiKey
            ((dt1, Responds (Response st1 t1 b1 r1)) # (dt2, Responds (Response st2 t2 b2 r2)) #
             (dt3, Responds (Response st3 t3 b3 r3)) # rest)) =
           effects (streamResponse c apiKey
            ((dt1, Responds (Response st1 t1 b1 r1)) # (dt2, Responds (Response st2 t2 b2 r2)) #
             (dt3, Responds (Response st3 t3 b3 r3)) # rest))"
proof -
  let ?env = "(dt1, Responds (Response st1 t1 b1 r1)) # (dt2, Responds (Response st2 t2 b2 r2)) #
             (dt3, Responds (Response st3 t3 b3 r3)) # rest"
  have h: "handleApiError c 401 t b = Error ''Authentication failed: Invalid API key.''"
    "handleApiError c 429 t b = Error ''Rate limit exceeded. Please try again later.''"
    "st \<noteq> 401 \<and> st \<noteq> 429 \<longrightarrow> handleApiError c st t b =
        (case server_message c b of
                 Some m \<Rightarrow> if throws_on_String m then TypeError else ErrorOf m
               | None \<Rightarrow> ErrorStatus st t)"
    by (auto simp: handleApiError_def server_message_def Let_def split: option.splits)
  define e3 where "e3 = handleApiError c st3 t3 b3"
  have "session c initial ?env =
      (Return, initial\<lparr>now := dt1 + 1000 + dt2 + 2000 + dt3, retries := 2,
         trace := handed c 0 @ [Fetch, Delay 1000] @ handed c 1 @ [Fetch, Delay 2000] @
                  handed c 2 @ [Fetch, OnError e3]\<rparr>)"
    using assms(2-7)
    by (simp add: attempt_def on_response_def advance_def fire_stale_def emit_def
        resetInactivity_def inactivityTimeoutMs_def catch_block_def delay_def initial_def
        MAX_RETRIES_def RETRY_DELAY_def handed_def e3_def [symmetric] Let_def)
  then have "streamResponse c apiKey ?env =
      Inr (Return, initial\<lparr>now := dt1 + 1000 + dt2 + 2000 + dt3, retries := 2,
         trace := handed c 0 @ [Fetch, Delay 1000] @ handed c 1 @ [Fetch, Delay 2000] @
                  handed c 2 @ [Fetch, OnError e3]\<rparr>)"
    by (simp only: streamResponse_runs [OF assms(1)])
  then have "returned (streamResponse c apiKey ?env)"
    "effects (streamResponse c apiKey ?env) =
       handed c 0 @ [Fetch, Delay 1000] @ handed c 1 @ [Fetch, Delay 2000] @ handed c 2 @
       [Fetch, OnError e3]"
    "effects_in_the_end (streamResponse c apiKey ?env) = effects (streamResponse c apiKey ?env)"
    by (simp_all add: returned_def effects_def effects_in_the_end_def in_the_end_def initial_def)
  with h show ?thesis unfolding e3_def by blast
qed

theorem http_errors_surface_after_the_retries_witness:
  \<open>server_message sample ''{"error":{"message":"No credits"}}'' = Some (JStr ''No credits'') \<and>
   handleApiError sample 402 ''Payment Required'' ''{"error":{"message":"No credits"}}'' =
     ErrorOf (JStr ''No credits'') \<and>
   handleApiError sample 500 ''Internal Server Error'' ''<html>'' =
     ErrorStatus 500 ''Internal Server Error'' \<and>
   effects (streamResponse sample (lit ''sk-1'')
     [(10, Responds (Response 401 ''Unauthorized'' [] None)),
      (10, Responds (Response 429 ''Too Many Requests'' [] None)),
      (10, Responds (Response 402 ''Payment Required'' ''{"error":{"message":"No credits"}}'' None))]) =
     [OnController 0, Fetch, Delay 1000, OnController 1, Fetch, Delay 2000, OnController 2,
      Fetch, OnError (ErrorOf (JStr ''No credits''))]\<close>
proof -
  have k: "lit ''sk-1'' \<noteq> [] \<or> use_proxy sample" by (simp add: lit_def)
  have st: "\<not> (200 \<le> (401::nat) \<and> (401::nat) \<le> 299)" "\<not> (200 \<le> (429::nat) \<and> (429::nat) \<le> 299)"
    "\<not> (200 \<le> (402::nat) \<and> (402::nat) \<le> 299)" "(10::nat) < inactivityTimeoutMs"
    by (simp_all add: inactivityTimeoutMs_def)
  have m: \<open>server_message sample ''{"error":{"message":"No credits"}}'' = Some (JStr ''No credits'')\<close>
    "server_message sample ''<html>'' = None"
    by (simp_all add: server_message_def sample_fields sample_parse_def)
  from http_errors_surface_after_the_retries [OF k st(1,2,3) st(4) st(4) st(4),
      of "''Payment Required''" \<open>''{"error":{"message":"No credits"}}''\<close> 402
      "''Unauthorized''" "[]" None "''Too Many Requests''" "[]" None
      "''Payment Required''" \<open>''{"error":{"message":"No credits"}}''\<close> None "[]"]
    http_errors_surface_after_the_retries [OF k st(1,2,3) st(4) st(4) st(4),
      of "''Internal Server Error''" "''<html>''" 500]
    m
  show ?thesis by (simp add: handed_def sample_fields)
qed

end
